theory Spec2Isabelle
  imports Main "HOL-Library.Multiset" "HOL-Library.Monad_Syntax"
begin

section \<open>Python lists: indexing, item assignment, slicing\<close>

text \<open>
  The scheduler is Python. Reading or writing \<open>xs[i]\<close> counts a negative index from the
  end and raises IndexError outside the list; the only exception the selectors can raise
  is that one, so a computation that may raise returns an option and \<open>None\<close> stands for
  the raised IndexError. A slice \<open>xs[:k]\<close> never raises: a negative \<open>k\<close> counts from
  the end and the bound is clipped to the list.
\<close>

definition py_get :: "'a list \<Rightarrow> int \<Rightarrow> 'a option" where
  "py_get xs i =
     (let n = int (length xs); k = (if i < 0 then n + i else i)
      in if 0 \<le> k \<and> k < n then Some (xs ! nat k) else None)"

definition py_set :: "'a list \<Rightarrow> int \<Rightarrow> 'a \<Rightarrow> 'a list option" where
  "py_set xs i v =
     (let n = int (length xs); k = (if i < 0 then n + i else i)
      in if 0 \<le> k \<and> k < n then Some (xs[nat k := v]) else None)"

definition py_slice_to :: "'a list \<Rightarrow> int \<Rightarrow> 'a list" where
  "py_slice_to xs k =
     (let n = int (length xs); stop = (if k < 0 then max (n + k) 0 else min k n)
      in take (nat stop) xs)"

text \<open>\<open>K[i][j]\<close> and \<open>K[i][j] = v\<close> on a list of rows.\<close>

definition K_get :: "int list list \<Rightarrow> int \<Rightarrow> int \<Rightarrow> int option" where
  "K_get K i j = do { row \<leftarrow> py_get K i; py_get row j }"

definition K_put :: "int list list \<Rightarrow> int \<Rightarrow> int \<Rightarrow> int \<Rightarrow> int list list option" where
  "K_put K i j v = do { row \<leftarrow> py_get K i; row' \<leftarrow> py_set row j v; py_set K i row' }"

text \<open>A \<open>for\<close> loop over a list whose body may raise.\<close>

fun for_each :: "'a list \<Rightarrow> ('a \<Rightarrow> 's \<Rightarrow> 's option) \<Rightarrow> 's \<Rightarrow> 's option" where
  "for_each [] body s = Some s"
| "for_each (x # xs) body s = (case body x s of None \<Rightarrow> None | Some s' \<Rightarrow> for_each xs body s')"

section \<open>The job selectors\<close>

text \<open>
  A job is an object owned by the dependency graph; \<open>'j\<close> is the type of references to
  jobs (object identity) and \<open>thr\<close> reads the attribute \<open>threads\<close> of the referenced
  object. \<open>cores\<close> is the field \<open>self._cores\<close> at the time of the call.
\<close>

text \<open>\<open>JobScheduler._selector\<close>: \<open>jobs[:self._cores]\<close>.\<close>

definition selector :: "int \<Rightarrow> 'j list \<Rightarrow> 'j list" where
  "selector cores jobs = py_slice_to jobs cores"

text \<open>
  \<open>JobScheduler._thread_based_selector\<close>. The body of the two nested \<open>for\<close> loops,
  for row \<open>i\<close> and column \<open>j\<close>:
\<close>

definition fill_cell :: "('j \<Rightarrow> int) \<Rightarrow> 'j list \<Rightarrow> nat \<Rightarrow> int \<Rightarrow> int list list \<Rightarrow> int list list option" where
  "fill_cell thr jobs i j K =
     do {
       job \<leftarrow> py_get jobs (int i - 1);
       let t = thr job;
       if t > j then
         do { a \<leftarrow> K_get K (int i - 1) j; K_put K (int i) j a }
       else
         do {
           a \<leftarrow> K_get K (int i - 1) j;
           b \<leftarrow> K_get K (int i - 1) (j - t);
           K_put K (int i) j (max a (t + b))
         }
     }"

definition fill_row :: "('j \<Rightarrow> int) \<Rightarrow> 'j list \<Rightarrow> int \<Rightarrow> nat \<Rightarrow> int list list \<Rightarrow> int list list option" where
  "fill_row thr jobs dimj i K = for_each [1 .. dimj - 1] (fill_cell thr jobs i) K"

definition fill_table :: "('j \<Rightarrow> int) \<Rightarrow> 'j list \<Rightarrow> nat \<Rightarrow> int \<Rightarrow> int list list \<Rightarrow> int list list option" where
  "fill_table thr jobs dimi dimj K = for_each [1 ..< dimi] (fill_row thr jobs dimj) K"

text \<open>The \<open>while i > 0\<close> loop that reads the solution off the table.\<close>

fun backtrack :: "('j \<Rightarrow> int) \<Rightarrow> 'j list \<Rightarrow> int list list \<Rightarrow> nat \<Rightarrow> int \<Rightarrow> 'j set \<Rightarrow> 'j set option" where
  "backtrack thr jobs K 0 j solution = Some solution"
| "backtrack thr jobs K (Suc i) j solution =
     do {
       a \<leftarrow> K_get K (int (Suc i)) j;
       b \<leftarrow> K_get K (int (Suc i) - 1) j;
       if a \<noteq> b then
         do {
           job \<leftarrow> py_get jobs (int (Suc i) - 1);
           backtrack thr jobs K i (j - thr job) (insert job solution)
         }
       else backtrack thr jobs K i j solution
     }"

definition thread_based_selector :: "('j \<Rightarrow> int) \<Rightarrow> int \<Rightarrow> 'j list \<Rightarrow> 'j set option" where
  "thread_based_selector thr cores jobs =
     (let dimi = length jobs + 1;
          dimj = cores + 1;
          K0 = replicate dimi (replicate (nat dimj) (0::int))
      in do {
           K \<leftarrow> fill_table thr jobs dimi dimj K0;
           backtrack thr jobs K (dimi - 1) (dimj - 1) {}
         })"

text \<open>
  The table and the walk as the specification words them: \<open>spec_cell thr jobs i j\<close> is
  cell(i, j), given by the recurrence over the first \<open>i\<close> candidates, and
  \<open>spec_walk thr jobs i j\<close> is the subset picked by walking backward from cell(i, j).
\<close>

fun spec_cell :: "('j \<Rightarrow> int) \<Rightarrow> 'j list \<Rightarrow> nat \<Rightarrow> int \<Rightarrow> int" where
  "spec_cell thr jobs 0 j = 0"
| "spec_cell thr jobs (Suc i) j =
     (let t = thr (jobs ! i)
      in if t > j then spec_cell thr jobs i j
         else max (spec_cell thr jobs i j) (t + spec_cell thr jobs i (j - t)))"

fun spec_walk :: "('j \<Rightarrow> int) \<Rightarrow> 'j list \<Rightarrow> nat \<Rightarrow> int \<Rightarrow> 'j set" where
  "spec_walk thr jobs 0 j = {}"
| "spec_walk thr jobs (Suc i) j =
     (if spec_cell thr jobs (Suc i) j \<noteq> spec_cell thr jobs i j
      then insert (jobs ! i) (spec_walk thr jobs i (j - thr (jobs ! i)))
      else spec_walk thr jobs i j)"

text \<open>
  Ordered-prefix selection as the specification words it: jobs in listed order while the
  next one still fits the remaining budget.
\<close>

fun spec_prefix :: "('j \<Rightarrow> int) \<Rightarrow> int \<Rightarrow> 'j list \<Rightarrow> 'j list" where
  "spec_prefix thr budget [] = []"
| "spec_prefix thr budget (job # jobs) =
     (if thr job \<le> budget then job # spec_prefix thr (budget - thr job) jobs else [])"

text \<open>
  Loop invariants of the two nested \<open>for\<close> loops: rows below \<open>i\<close> hold the cells of
  the recurrence, and so do the columns of row \<open>i\<close> below \<open>j\<close>.
\<close>

definition table_upto :: "('j \<Rightarrow> int) \<Rightarrow> 'j list \<Rightarrow> int \<Rightarrow> int list list \<Rightarrow> nat \<Rightarrow> bool" where
  "table_upto thr jobs cores K i \<longleftrightarrow>
     length K = length jobs + 1 \<and>
     (\<forall>r\<le>length jobs. length (K ! r) = nat (cores + 1) \<and> K ! r ! 0 = 0) \<and>
     (\<forall>r<i. \<forall>c. 0 \<le> c \<and> c \<le> cores \<longrightarrow> K ! r ! nat c = spec_cell thr jobs r c)"

definition row_upto :: "('j \<Rightarrow> int) \<Rightarrow> 'j list \<Rightarrow> int \<Rightarrow> int list list \<Rightarrow> nat \<Rightarrow> int \<Rightarrow> bool" where
  "row_upto thr jobs cores K i j \<longleftrightarrow>
     table_upto thr jobs cores K i \<and>
     (\<forall>c. 0 \<le> c \<and> c < j \<longrightarrow> K ! i ! nat c = spec_cell thr jobs i c)"

section \<open>The scheduler\<close>

text \<open>
  Jobs are mutable objects shared between the dependency graph and the scheduler: the
  scheduler overwrites \<open>job.threads\<close> when it clamps, and the completion callback later
  reads the same attribute. The objects therefore live in a store \<open>heap\<close> from job
  references to attribute records, and lists and sets hold references.
\<close>

record job =
  rule :: string
  threads :: int
  needrun :: bool

datatype executor = DryrunExecutor | TouchExecutor | ClusterExecutor | CPUExecutor

datatype log_entry =
    WillExit
  | TooManyThreads string int int
  | Progress int nat

text \<open>
  The fields of \<open>JobScheduler\<close>; a leading underscore of the source is written \<open>u_\<close>.
  \<open>self._selector\<close> is rebound to the thread-based selector exactly when the executor
  is \<open>CPUExecutor\<close>, and \<open>self.progress\<close> to a no-op exactly when \<open>dryrun\<close>; neither
  is assigned again, so \<open>u_executor\<close> and \<open>dryrun\<close> stand for those bindings.
  \<open>u_jobs\<close> is \<open>None\<close> until \<open>_error\<close> first assigns the attribute.

  The collaborators are outside this file; what the scheduler does to them is recorded:
  \<open>logged\<close> the messages given to the logger, \<open>submitted\<close> the jobs handed to
  \<open>stats.report_job_start\<close> and \<open>executor.run\<close>, \<open>ended\<close> the jobs handed to
  \<open>stats.report_job_end\<close>, \<open>dag_finished\<close> the jobs handed to \<open>dag.finish\<close>,
  \<open>shutdowns\<close> the number of calls of \<open>executor.shutdown\<close>, \<open>dag_size\<close> the value
  of \<open>len(self.dag)\<close>, and \<open>returned\<close> the value \<open>schedule\<close> has returned, if it has.
\<close>

record 'j scheduler =
  heap :: "'j \<Rightarrow> job"
  dag_size :: nat
  dryrun :: bool
  maxcores :: int
  finished_jobs :: int
  u_cores :: int
  u_open_jobs :: bool
  u_errors :: bool
  u_executor :: executor
  u_jobs :: "'j set option"
  logged :: "log_entry list"
  submitted :: "'j multiset"
  ended :: "'j multiset"
  dag_finished :: "'j multiset"
  shutdowns :: nat
  returned :: "bool option"

text \<open>\<open>JobScheduler.__init__\<close>.\<close>

definition init :: "('j \<Rightarrow> job) \<Rightarrow> nat \<Rightarrow> int \<Rightarrow> bool \<Rightarrow> bool \<Rightarrow> bool \<Rightarrow> 'j scheduler" where
  "init jobs_heap dag_len cores_arg dryrun_arg touch cluster =
     \<lparr> heap = jobs_heap,
       dag_size = dag_len,
       dryrun = dryrun_arg,
       maxcores = cores_arg,
       finished_jobs = 0,
       u_cores = cores_arg,
       u_open_jobs = True,
       u_errors = False,
       u_executor =
         (if dryrun_arg then DryrunExecutor
          else if touch then TouchExecutor
          else if cluster then ClusterExecutor
          else CPUExecutor),
       u_jobs = None,
       logged = [],
       submitted = {#},
       ended = {#},
       dag_finished = {#},
       shutdowns = 0,
       returned = None \<rparr>"

text \<open>
  The value of \<open>self._selector(needrun)\<close>: a list from the slice, a set from the
  knapsack. \<open>schedule\<close> only iterates over it, so the order in which a set yields its
  members does not reach the state: the dispatched jobs are kept as a multiset.
\<close>

datatype 'j selection = Listed "'j list" | Unordered "'j set"

fun jobs_of :: "'j selection \<Rightarrow> 'j multiset" where
  "jobs_of (Listed xs) = mset xs"
| "jobs_of (Unordered S) = mset_set S"

definition u_selector :: "'j scheduler \<Rightarrow> 'j list \<Rightarrow> 'j selection option" where
  "u_selector s jobs =
     (if u_executor s = CPUExecutor
      then map_option Unordered (thread_based_selector (\<lambda>job. threads (heap s job)) (u_cores s) jobs)
      else Some (Listed (selector (u_cores s) jobs)))"

text \<open>
  The \<open>for job in self.dag.ready_jobs\<close> loop of \<open>schedule\<close>, with the list \<open>needrun\<close>
  it builds as accumulator (called \<open>candidates\<close> below, the name \<open>needrun\<close> being the
  job attribute).
\<close>

fun collect :: "'j list \<Rightarrow> 'j scheduler \<Rightarrow> 'j list \<Rightarrow> 'j list \<times> 'j scheduler" where
  "collect [] s acc = (acc, s)"
| "collect (job # ready) s acc =
     (if needrun (heap s job) then
        (if threads (heap s job) > maxcores s then
           (let s1 = (if \<not> dryrun s
                      then s\<lparr>logged := logged s @
                             [TooManyThreads (rule (heap s job)) (threads (heap s job)) (maxcores s)]\<rparr>
                      else s);
                s2 = s1\<lparr>heap := (heap s1)(job := (heap s1 job)\<lparr>threads := maxcores s1\<rparr>)\<rparr>
            in collect ready s2 (acc @ [job]))
         else collect ready s (acc @ [job]))
      else collect ready s acc)"

text \<open>
  One pass through the body of \<open>while True\<close> in \<open>schedule\<close>, from the moment
  \<open>self._open_jobs.wait()\<close> has returned; \<open>ready\<close> is what \<open>self.dag.ready_jobs\<close>
  yields in this pass. \<open>None\<close> is an exception leaving \<open>schedule\<close>.
\<close>

definition schedule_step :: "'j list \<Rightarrow> 'j scheduler \<Rightarrow> 'j scheduler option" where
  "schedule_step ready s0 =
     (let s = s0\<lparr>u_open_jobs := False\<rparr>
      in if u_errors s then
           Some (s\<lparr>logged := logged s @ [WillExit],
                   shutdowns := shutdowns s + 1,
                   returned := Some False\<rparr>)
         else
           (case collect ready s [] of (candidates, s1) \<Rightarrow>
              if candidates = [] then
                Some (s1\<lparr>shutdowns := shutdowns s1 + 1, returned := Some True\<rparr>)
              else
                do {
                  run \<leftarrow> u_selector s1 candidates;
                  let s2 = s1\<lparr>u_cores := u_cores s1 -
                                 (\<Sum>job\<in>#jobs_of run. threads (heap s1 job))\<rparr>;
                  Some (s2\<lparr>submitted := submitted s2 + jobs_of run\<rparr>)
                }))"

text \<open>
  \<open>JobScheduler.progress\<close>: the division raises ZeroDivisionError when the graph is
  empty (\<open>None\<close>); the percentage itself is a float and is not part of the entry.
\<close>

definition progress :: "'j scheduler \<Rightarrow> 'j scheduler option" where
  "progress s =
     (if dryrun s then Some s
      else if dag_size s = 0 then None
      else Some (s\<lparr>logged := logged s @ [Progress (finished_jobs s) (dag_size s)]\<rparr>))"

text \<open>
  \<open>JobScheduler._finished\<close>, the completion callback. When \<open>progress\<close> raises,
  the exception leaves the callback before the wake signal is set (\<open>None\<close>).
\<close>

definition finished :: "'j \<Rightarrow> 'j scheduler \<Rightarrow> 'j scheduler option" where
  "finished job s =
     (let s1 = s\<lparr>ended := add_mset job (ended s)\<rparr>;
          s2 = (if needrun (heap s1 job)
                then s1\<lparr>u_cores := u_cores s1 + threads (heap s1 job)\<rparr>
                else s1);
          s3 = s2\<lparr>finished_jobs := finished_jobs s2 + 1\<rparr>;
          s4 = s3\<lparr>dag_finished := add_mset job (dag_finished s3)\<rparr>
      in do { s5 \<leftarrow> progress s4; Some (s5\<lparr>u_open_jobs := True\<rparr>) })"

text \<open>\<open>JobScheduler._error\<close>, the error callback.\<close>

definition error :: "'j scheduler \<Rightarrow> 'j scheduler" where
  "error s = s\<lparr>u_errors := True, u_jobs := Some {}, u_open_jobs := True\<rparr>"

text \<open>The thread requirements of the jobs dispatched and not yet completed.\<close>

definition in_flight :: "'j scheduler \<Rightarrow> int" where
  "in_flight s = (\<Sum>job\<in>#submitted s - ended s. threads (heap s job))"

text \<open>
  A job the \<open>for\<close> loop clamps, and what one pass of the loop body does to the state.
\<close>

definition oversized :: "'j scheduler \<Rightarrow> 'j \<Rightarrow> bool" where
  "oversized s job \<longleftrightarrow> needrun (heap s job) \<and> maxcores s < threads (heap s job)"

definition visit :: "'j \<Rightarrow> 'j scheduler \<Rightarrow> 'j scheduler" where
  "visit job s =
     (if oversized s job
      then s\<lparr>logged := logged s @
                (if dryrun s then []
                 else [TooManyThreads (rule (heap s job)) (threads (heap s job)) (maxcores s)]),
              heap := (heap s)(job := (heap s job)\<lparr>threads := maxcores s\<rparr>)\<rparr>
      else s)"

section \<open>The scheduler and its callbacks, interleaved\<close>

text \<open>
  \<open>schedule\<close> runs in the control thread; \<open>_finished\<close> and \<open>_error\<close> are called by
  the backend from its own threads, and the class takes no lock. The system is the
  scheduler together with the place the control thread has reached in \<open>schedule\<close> and
  the callbacks that have been entered and have not returned. One step of the system is
  one step of one thread, and no step holds both a read and a write of an attribute that
  another thread writes: \<open>self._cores -= ...\<close> (line 63), \<open>self._cores += ...\<close>
  (line 71) and \<open>self.finished_jobs += 1\<close> (line 72) are a read and a later write, and
  the test of \<open>self._errors\<close> (line 41) is a step of its own.

  The places of the control thread:
  \<^item> \<open>Waiting\<close>: in \<open>self._open_jobs.wait()\<close>;
  \<^item> \<open>Woken\<close>: \<open>wait()\<close> has returned, before \<open>clear()\<close>;
  \<^item> \<open>Cleared\<close>: before the test of \<open>self._errors\<close>;
  \<^item> \<open>Collecting ready candidates\<close>: in the first \<open>for\<close> loop, with the ready jobs still
    to visit and the list \<open>needrun\<close> built so far;
  \<^item> \<open>Selected run\<close>: the selector has returned, before \<open>self._cores\<close> is read;
  \<^item> \<open>Deducting run old\<close>: \<open>self._cores\<close> has been read as \<open>old\<close> and is not yet
    written;
  \<^item> \<open>Dispatching run\<close>: in the second \<open>for\<close> loop, with the jobs still to hand over;
  \<^item> \<open>Done\<close>: \<open>schedule\<close> has returned; \<open>Raised\<close>: an exception has left it.
\<close>

datatype 'j pc =
    Waiting
  | Woken
  | Cleared
  | Collecting "'j list" "'j list"
  | Selected "'j selection"
  | Deducting "'j selection" int
  | Dispatching "'j selection"
  | Done
  | Raised

text \<open>
  The places of a callback that has been entered. \<open>_finished(job)\<close>: after
  \<open>report_job_end\<close> and before the test of \<open>job.needrun\<close> (\<open>Finished_test\<close>); with
  \<open>self._cores\<close> read and not yet written (\<open>Finished_loaded\<close>, with the value read);
  before and after the read of \<open>self.finished_jobs\<close> (\<open>Finished_counting\<close>,
  \<open>Finished_counted\<close>); before \<open>dag.finish\<close>, before \<open>progress\<close> and before
  \<open>self._open_jobs.set()\<close>. \<open>_error()\<close>: before each of its three statements.
\<close>

datatype 'j activation =
    Finished_test 'j
  | Finished_loaded 'j int
  | Finished_counting 'j
  | Finished_counted 'j int
  | Finished_notify 'j
  | Finished_progress 'j
  | Finished_signal 'j
  | Error_flag
  | Error_jobs
  | Error_signal

record 'j system =
  sched :: "'j scheduler"
  pc :: "'j pc"
  callbacks :: "'j activation multiset"

text \<open>
  The next step of a callback: the scheduler after it and the place the callback is in
  then, \<open>None\<close> when it has returned or, in \<open>progress\<close>, raised.
\<close>

fun advance :: "'j activation \<Rightarrow> 'j scheduler \<Rightarrow> 'j scheduler \<times> 'j activation option" where
  "advance (Finished_test job) s =
     (if needrun (heap s job) then (s, Some (Finished_loaded job (u_cores s)))
      else (s, Some (Finished_counting job)))"
| "advance (Finished_loaded job c) s =
     (s\<lparr>u_cores := c + threads (heap s job)\<rparr>, Some (Finished_counting job))"
| "advance (Finished_counting job) s = (s, Some (Finished_counted job (finished_jobs s)))"
| "advance (Finished_counted job n) s = (s\<lparr>finished_jobs := n + 1\<rparr>, Some (Finished_notify job))"
| "advance (Finished_notify job) s =
     (s\<lparr>dag_finished := add_mset job (dag_finished s)\<rparr>, Some (Finished_progress job))"
| "advance (Finished_progress job) s =
     (case progress s of None \<Rightarrow> (s, None) | Some s' \<Rightarrow> (s', Some (Finished_signal job)))"
| "advance (Finished_signal job) s = (s\<lparr>u_open_jobs := True\<rparr>, None)"
| "advance Error_flag s = (s\<lparr>u_errors := True\<rparr>, Some Error_jobs)"
| "advance Error_jobs s = (s\<lparr>u_jobs := Some {}\<rparr>, Some Error_signal)"
| "advance Error_signal s = (s\<lparr>u_open_jobs := True\<rparr>, None)"

text \<open>
  \<open>for job in run\<close> yields the jobs of a list in its order and those of a set in an
  order of its own: \<open>next_jobs\<close> are the jobs it may yield next, \<open>without\<close> is what
  is left after one of them.
\<close>

fun next_jobs :: "'j selection \<Rightarrow> 'j set" where
  "next_jobs (Listed []) = {}"
| "next_jobs (Listed (job # jobs)) = {job}"
| "next_jobs (Unordered S) = S"

fun without :: "'j \<Rightarrow> 'j selection \<Rightarrow> 'j selection" where
  "without job (Listed jobs) = Listed (tl jobs)"
| "without job (Unordered S) = Unordered (S - {job})"

text \<open>
  The steps. Those of the control thread follow \<open>schedule\<close>: \<open>Wake\<close> and \<open>Clear\<close>
  are lines 39 and 40; \<open>Test ready\<close> is the test of line 41 and, with the flag unset,
  the start of the loop over \<open>ready\<close>, the jobs the graph reports; \<open>Visit\<close> is one
  pass of that loop (lines 48 to 57); \<open>Select\<close> is lines 58 to 62; \<open>Load\<close> and
  \<open>Store\<close> are the read and the write of line 63; \<open>Dispatch job\<close> is one pass of the
  loop of lines 64 to 66; \<open>Loop\<close> returns to line 39. \<open>Call_finished job\<close> is the
  backend entering \<open>_finished\<close> for a job it was given and has not yet reported
  (with line 69), \<open>Call_error\<close> the backend entering \<open>_error\<close>, and \<open>Advance a\<close>
  the next step of a callback in progress.
\<close>

datatype 'j action =
    Wake
  | Clear
  | Test "'j list"
  | Visit
  | Select
  | Load
  | Store
  | Dispatch 'j
  | Loop
  | Call_finished 'j
  | Call_error
  | Advance "'j activation"

text \<open>
  The system after a step, \<open>None\<close> when the step cannot be taken in this state.
\<close>

fun fire :: "'j action \<Rightarrow> 'j system \<Rightarrow> 'j system option" where
  "fire Wake c =
     (if pc c = Waiting \<and> u_open_jobs (sched c) then Some (c\<lparr>pc := Woken\<rparr>) else None)"
| "fire Clear c =
     (if pc c = Woken then Some (c\<lparr>sched := (sched c)\<lparr>u_open_jobs := False\<rparr>, pc := Cleared\<rparr>)
      else None)"
| "fire (Test ready) c =
     (if pc c = Cleared then
        (if u_errors (sched c) then
           Some (c\<lparr>sched := (sched c)\<lparr>logged := logged (sched c) @ [WillExit],
                                      shutdowns := shutdowns (sched c) + 1,
                                      returned := Some False\<rparr>,
                   pc := Done\<rparr>)
         else Some (c\<lparr>pc := Collecting ready []\<rparr>))
      else None)"
| "fire Visit c =
     (case pc c of
        Collecting (job # ready) acc \<Rightarrow>
          (case collect [job] (sched c) acc of
             (acc', s') \<Rightarrow> Some (c\<lparr>sched := s', pc := Collecting ready acc'\<rparr>))
      | _ \<Rightarrow> None)"
| "fire Select c =
     (case pc c of
        Collecting [] candidates \<Rightarrow>
          (if candidates = [] then
             Some (c\<lparr>sched := (sched c)\<lparr>shutdowns := shutdowns (sched c) + 1,
                                        returned := Some True\<rparr>,
                     pc := Done\<rparr>)
           else
             (case u_selector (sched c) candidates of
                None \<Rightarrow> Some (c\<lparr>pc := Raised\<rparr>)
              | Some run \<Rightarrow> Some (c\<lparr>pc := Selected run\<rparr>)))
      | _ \<Rightarrow> None)"
| "fire Load c =
     (case pc c of
        Selected run \<Rightarrow> Some (c\<lparr>pc := Deducting run (u_cores (sched c))\<rparr>)
      | _ \<Rightarrow> None)"
| "fire Store c =
     (case pc c of
        Deducting run old \<Rightarrow>
          Some (c\<lparr>sched := (sched c)\<lparr>u_cores :=
                     old - (\<Sum>job\<in>#jobs_of run. threads (heap (sched c) job))\<rparr>,
                  pc := Dispatching run\<rparr>)
      | _ \<Rightarrow> None)"
| "fire (Dispatch job) c =
     (case pc c of
        Dispatching run \<Rightarrow>
          (if job \<in> next_jobs run then
             Some (c\<lparr>sched := (sched c)\<lparr>submitted := add_mset job (submitted (sched c))\<rparr>,
                     pc := Dispatching (without job run)\<rparr>)
           else None)
      | _ \<Rightarrow> None)"
| "fire Loop c =
     (case pc c of
        Dispatching run \<Rightarrow> (if next_jobs run = {} then Some (c\<lparr>pc := Waiting\<rparr>) else None)
      | _ \<Rightarrow> None)"
| "fire (Call_finished job) c =
     (if job \<in># submitted (sched c) - ended (sched c) then
        Some (c\<lparr>sched := (sched c)\<lparr>ended := add_mset job (ended (sched c))\<rparr>,
                callbacks := add_mset (Finished_test job) (callbacks c)\<rparr>)
      else None)"
| "fire Call_error c = Some (c\<lparr>callbacks := add_mset Error_flag (callbacks c)\<rparr>)"
| "fire (Advance a) c =
     (if a \<in># callbacks c then
        (case advance a (sched c) of
           (s', rest) \<Rightarrow>
             Some (c\<lparr>sched := s',
                     callbacks := (case rest of
                                     None \<Rightarrow> callbacks c - {#a#}
                                   | Some a' \<Rightarrow> add_mset a' (callbacks c - {#a#}))\<rparr>))
      else None)"

definition step :: "'j system \<Rightarrow> 'j system \<Rightarrow> bool" where
  "step c c' \<longleftrightarrow> (\<exists>a. fire a c = Some c')"

text \<open>
  A sequence of steps from a state, and the state in which the scheduler has been
  constructed, the control thread is about to wait and no callback has been entered.
\<close>

fun execute :: "'j action list \<Rightarrow> 'j system \<Rightarrow> 'j system option" where
  "execute [] c = Some c"
| "execute (a # as) c = (case fire a c of None \<Rightarrow> None | Some c' \<Rightarrow> execute as c')"

definition start :: "'j scheduler \<Rightarrow> 'j system" where
  "start s = \<lparr>sched = s, pc = Waiting, callbacks = {#}\<rparr>"

text \<open>
  The reads of \<open>self._cores\<close> whose write is still to come, in line 63 and in line 71.
  An execution is exclusive when at most one of them is open at a time, as it would be
  if the two statements were guarded by one lock.
\<close>

fun loaded :: "'j activation \<Rightarrow> nat" where
  "loaded (Finished_loaded job old) = 1"
| "loaded _ = 0"

definition loads_open :: "'j system \<Rightarrow> nat" where
  "loads_open c = (case pc c of Deducting run old \<Rightarrow> 1 | _ \<Rightarrow> 0) + (\<Sum>a\<in>#callbacks c. loaded a)"

definition exclusive_step :: "'j system \<Rightarrow> 'j system \<Rightarrow> bool" where
  "exclusive_step c c' \<longleftrightarrow> step c c' \<and> loads_open c' \<le> 1"

fun execute_exclusive :: "'j action list \<Rightarrow> 'j system \<Rightarrow> 'j system option" where
  "execute_exclusive [] c = Some c"
| "execute_exclusive (a # as) c =
     (case fire a c of
        None \<Rightarrow> None
      | Some c' \<Rightarrow> if loads_open c' \<le> 1 then execute_exclusive as c' else None)"

text \<open>
  What the counter does not hold besides the jobs in flight: the threads of a
  completion whose increment is still to come, and those of the selected jobs that the
  second loop has still to hand over.
\<close>

fun owed :: "('j \<Rightarrow> job) \<Rightarrow> 'j activation \<Rightarrow> int" where
  "owed h (Finished_test job) = threads (h job)"
| "owed h (Finished_loaded job old) = threads (h job)"
| "owed h _ = 0"

fun pending :: "'j pc \<Rightarrow> 'j multiset" where
  "pending (Dispatching sel) = jobs_of sel"
| "pending _ = {#}"

text \<open>
  A job the first loop has passed: it needs to run and asks for no more than
  \<open>maxcores\<close> threads. A selection that fits the counter.
\<close>

definition settled :: "'j scheduler \<Rightarrow> 'j \<Rightarrow> bool" where
  "settled s job \<longleftrightarrow> needrun (heap s job) \<and> threads (heap s job) \<le> maxcores s"

fun finite_selection :: "'j selection \<Rightarrow> bool" where
  "finite_selection (Listed jobs) = True"
| "finite_selection (Unordered S) = finite S"

definition fits :: "'j scheduler \<Rightarrow> 'j selection \<Rightarrow> bool" where
  "fits s run \<longleftrightarrow>
     finite_selection run \<and>
     (\<Sum>job\<in>#jobs_of run. threads (heap s job)) \<le> u_cores s \<and>
     (\<forall>job\<in>#jobs_of run. settled s job)"

text \<open>
  What holds of the place of the control thread and of a callback in an exclusive
  execution with the CPU executor, and the invariant of these executions.
\<close>

fun pc_inv :: "'j scheduler \<Rightarrow> 'j pc \<Rightarrow> bool" where
  "pc_inv s (Collecting ready acc) = (\<forall>job\<in>set acc. settled s job)"
| "pc_inv s (Selected run) = fits s run"
| "pc_inv s (Deducting run old) = (old = u_cores s \<and> fits s run)"
| "pc_inv s (Dispatching sel) = (finite_selection sel \<and> (\<forall>job\<in>#jobs_of sel. settled s job))"
| "pc_inv s _ = True"

fun act_inv :: "'j scheduler \<Rightarrow> 'j activation \<Rightarrow> bool" where
  "act_inv s (Finished_test job) = settled s job"
| "act_inv s (Finished_loaded job old) = (old = u_cores s \<and> settled s job)"
| "act_inv s _ = True"

definition debt :: "'j system \<Rightarrow> int" where
  "debt c = in_flight (sched c) + (\<Sum>a\<in>#callbacks c. owed (heap (sched c)) a)
              + (\<Sum>job\<in>#pending (pc c). threads (heap (sched c) job))"

definition budget_inv :: "'j system \<Rightarrow> bool" where
  "budget_inv c \<longleftrightarrow>
     u_executor (sched c) = CPUExecutor \<and> 0 \<le> maxcores (sched c) \<and>
     (\<forall>job. 0 \<le> threads (heap (sched c) job)) \<and>
     ended (sched c) \<subseteq># submitted (sched c) \<and>
     (\<forall>job\<in>#submitted (sched c). settled (sched c) job) \<and>
     (\<forall>a\<in>#callbacks c. act_inv (sched c) a) \<and>
     pc_inv (sched c) (pc c) \<and>
     loads_open c \<le> 1 \<and>
     0 \<le> u_cores (sched c) \<and>
     u_cores (sched c) + debt c = maxcores (sched c)"

text \<open>
  The places outside the body of a pass: no job is dispatched from them before the
  flag is tested again.
\<close>

fun at_top :: "'j pc \<Rightarrow> bool" where
  "at_top Waiting = True"
| "at_top Woken = True"
| "at_top Cleared = True"
| "at_top Done = True"
| "at_top Raised = True"
| "at_top _ = False"

text \<open>
  After \<open>_error\<close> has set the flag, the control thread is past \<open>wait()\<close> or will not
  block in it: the wake signal is set, or the error callback is still to set it.
\<close>

definition signalled :: "'j system \<Rightarrow> bool" where
  "signalled c \<longleftrightarrow>
     u_open_jobs (sched c) \<or> Error_jobs \<in># callbacks c \<or> Error_signal \<in># callbacks c \<or>
     pc c = Cleared \<or> pc c = Done \<or> pc c = Raised"

text \<open>
  \<open>schedule\<close> has returned \<open>False\<close> after one more call of \<open>executor.shutdown\<close>
  and no dispatch.
\<close>

definition exits :: "'j system \<Rightarrow> 'j system \<Rightarrow> bool" where
  "exits c d \<longleftrightarrow>
     pc d = Done \<and> returned (sched d) = Some False \<and>
     shutdowns (sched d) = shutdowns (sched c) + 1 \<and>
     submitted (sched d) = submitted (sched c)"

text \<open>Three jobs A, C and B, numbered 0, 1 and 2, with 2, 2 and 3 threads.\<close>

definition acb_heap :: "nat \<Rightarrow> job" where
  "acb_heap job = \<lparr>rule = ''r'', threads = (if job = 2 then 3 else 2), needrun = True\<rparr>"

text \<open>Jobs of one thread each.\<close>

definition unit_heap :: "nat \<Rightarrow> job" where
  "unit_heap job = \<lparr>rule = ''r'', threads = 1, needrun = True\<rparr>"

text \<open>Jobs that are up to date.\<close>

definition done_heap :: "nat \<Rightarrow> job" where
  "done_heap job = \<lparr>rule = ''r'', threads = 1, needrun = False\<rparr>"

definition acb_threads :: "nat \<Rightarrow> int" where
  "acb_threads job = threads (acb_heap job)"

text \<open>
  Cluster mode, two cores, the jobs A and C ready: one pass up to the write of the
  counter.
\<close>

definition overdraw :: "nat action list" where
  "overdraw = [Wake, Clear, Test [0, 1], Visit, Visit, Select, Load, Store]"

text \<open>
  CPU executor, four cores, and a fourth job of two threads. A and C are dispatched
  and A completes. The next pass selects the fourth job and reads the counter, 2; the
  completion of C reads the counter, 2; the pass writes 0; the completion writes 4; the
  fourth job is dispatched and its completion adds its two threads.
\<close>

definition lost_update :: "nat action list" where
  "lost_update =
    [Wake, Clear, Test [0, 1], Visit, Visit, Select, Load, Store, Dispatch 0, Dispatch 1, Loop,
     Call_finished 0, Advance (Finished_test 0), Advance (Finished_loaded 0 0),
     Advance (Finished_counting 0), Advance (Finished_counted 0 0), Advance (Finished_notify 0),
     Advance (Finished_progress 0), Advance (Finished_signal 0),
     Wake, Clear, Test [3], Visit, Select, Load,
     Call_finished 1, Advance (Finished_test 1),
     Store,
     Advance (Finished_loaded 1 2),
     Dispatch 3,
     Call_finished 3, Advance (Finished_test 3), Advance (Finished_loaded 3 4)]"

text \<open>
  CPU executor, four cores: A and C are selected, A is dispatched and completes while C
  is dispatched.
\<close>

definition refund :: "nat action list" where
  "refund =
    [Wake, Clear, Test [0, 1, 2], Visit, Visit, Visit, Select, Load, Store, Dispatch 0,
     Call_finished 0, Dispatch 1, Advance (Finished_test 0), Advance (Finished_loaded 0 0)]"

text \<open>
  CPU executor, job A ready: the pass tests the flag, collects and selects A, and then
  the error callback sets the flag. In \<open>error_seen\<close> the pass and the callback run to
  their ends and the control thread wakes again.
\<close>

definition late_error :: "nat action list" where
  "late_error = [Wake, Clear, Test [0], Visit, Select, Call_error, Advance Error_flag]"

definition error_seen :: "nat action list" where
  "error_seen = [Load, Store, Dispatch 0, Loop, Advance Error_jobs, Advance Error_signal, Wake, Clear]"

section \<open>Python lists inside their bounds\<close>

lemma py_get_in_range: "0 \<le> i \<Longrightarrow> i < int (length xs) \<Longrightarrow> py_get xs i = Some (xs ! nat i)"
  by (simp add: py_get_def)

lemma py_set_in_range: "0 \<le> i \<Longrightarrow> i < int (length xs) \<Longrightarrow> py_set xs i v = Some (xs[nat i := v])"
  by (simp add: py_set_def)

lemma K_get_in_range:
  "0 \<le> i \<Longrightarrow> i < int (length K) \<Longrightarrow> 0 \<le> j \<Longrightarrow> j < int (length (K ! nat i)) \<Longrightarrow>
   K_get K i j = Some (K ! nat i ! nat j)"
  by (simp add: K_get_def py_get_in_range)

lemma K_put_in_range:
  "0 \<le> i \<Longrightarrow> i < int (length K) \<Longrightarrow> 0 \<le> j \<Longrightarrow> j < int (length (K ! nat i)) \<Longrightarrow>
   K_put K i j v = Some (K[nat i := (K ! nat i)[nat j := v]])"
  by (simp add: K_put_def py_get_in_range py_set_in_range)

lemma for_each_invariant:
  assumes "P 0 s"
    and "\<And>k s. k < length xs \<Longrightarrow> P k s \<Longrightarrow> \<exists>s'. body (xs ! k) s = Some s' \<and> P (Suc k) s'"
  shows "\<exists>s'. for_each xs body s = Some s' \<and> P (length xs) s'"
  using assms
proof (induction xs arbitrary: s P)
  case Nil
  then show ?case by simp
next
  case (Cons x xs)
  from Cons.prems(2)[of 0 s] Cons.prems(1)
  obtain s1 where s1: "body x s = Some s1" "P (Suc 0) s1" by auto
  have "\<exists>s'. for_each xs body s1 = Some s' \<and> (\<lambda>k. P (Suc k)) (length xs) s'"
  proof (rule Cons.IH)
    show "P (Suc 0) s1" by (rule s1)
  next
    fix k s assume "k < length xs" "P (Suc k) s"
    with Cons.prems(2)[of "Suc k" s]
    show "\<exists>s'. body (xs ! k) s = Some s' \<and> P (Suc (Suc k)) s'" by simp
  qed
  with s1 show ?case by simp
qed

lemma spec_cell_nonneg:
  "\<forall>x\<in>set jobs. 0 \<le> thr x \<Longrightarrow> i \<le> length jobs \<Longrightarrow> 0 \<le> spec_cell thr jobs i j"
  by (induction i arbitrary: j) (auto simp: Let_def max_def)

lemma spec_cell_le:
  "\<forall>x\<in>set jobs. 0 \<le> thr x \<Longrightarrow> i \<le> length jobs \<Longrightarrow> 0 \<le> j \<Longrightarrow> spec_cell thr jobs i j \<le> j"
proof (induction i arbitrary: j)
  case 0
  then show ?case by simp
next
  case (Suc i)
  let ?t = "thr (jobs ! i)"
  have t: "0 \<le> ?t" using Suc.prems by simp
  have a: "spec_cell thr jobs i j \<le> j" using Suc by simp
  show ?case
  proof (cases "?t > j")
    case True
    then show ?thesis using a by simp
  next
    case False
    then have "spec_cell thr jobs i (j - ?t) \<le> j - ?t" using Suc by simp
    then show ?thesis using a False by (simp add: Let_def)
  qed
qed

lemma spec_cell_col0:
  "\<forall>x\<in>set jobs. 0 \<le> thr x \<Longrightarrow> i \<le> length jobs \<Longrightarrow> spec_cell thr jobs i 0 = 0"
  using spec_cell_nonneg [of jobs thr i 0] spec_cell_le [of jobs thr i 0] by simp

lemma spec_cell_mono_row: "spec_cell thr jobs i j \<le> spec_cell thr jobs (Suc i) j"
  by (simp add: Let_def)

lemma fill_cell_step:
  assumes nn: "\<forall>x\<in>set jobs. 0 \<le> thr x"
    and i: "1 \<le> i" "i \<le> length jobs"
    and j: "1 \<le> j" "j \<le> cores"
    and inv: "row_upto thr jobs cores K i j"
  shows "\<exists>K'. fill_cell thr jobs i j K = Some K' \<and> row_upto thr jobs cores K' i (j + 1)"
proof -
  obtain i' where i': "i = Suc i'" using i(1) by (cases i) auto
  let ?t = "thr (jobs ! i')"
  from inv have tab: "table_upto thr jobs cores K i"
    and row: "\<And>c. 0 \<le> c \<Longrightarrow> c < j \<Longrightarrow> K ! i ! nat c = spec_cell thr jobs i c"
    by (auto simp: row_upto_def)
  from tab have len: "length K = length jobs + 1"
    and rows: "\<And>r. r \<le> length jobs \<Longrightarrow> length (K ! r) = nat (cores + 1)"
    and col0: "\<And>r. r \<le> length jobs \<Longrightarrow> K ! r ! 0 = 0"
    and filled: "\<And>r c. r < i \<Longrightarrow> 0 \<le> c \<Longrightarrow> c \<le> cores \<Longrightarrow> K ! r ! nat c = spec_cell thr jobs r c"
    by (auto simp: table_upto_def)
  have t: "0 \<le> ?t" using nn i i' by simp
  have job: "py_get jobs (int i - 1) = Some (jobs ! i')"
    using i i' by (simp add: py_get_in_range)
  have a: "K_get K (int i - 1) j = Some (spec_cell thr jobs i' j)"
    using i i' j len rows[of i'] filled[of i' j] by (simp add: K_get_in_range)
  have b: "K_get K (int i - 1) (j - ?t) = Some (spec_cell thr jobs i' (j - ?t))" if "?t \<le> j"
    using that t i i' j len rows[of i'] filled[of i' "j - ?t"] by (simp add: K_get_in_range)
  define v where "v = spec_cell thr jobs i j"
  define K' where "K' = K[i := (K ! i)[nat j := v]]"
  have put: "K_put K (int i) j w = Some (K[i := (K ! i)[nat j := w]])" for w
    using i j len rows[of i] K_put_in_range[of "int i" K j w] by simp
  have res: "fill_cell thr jobs i j K = Some K'"
  proof (cases "?t > j")
    case True
    then show ?thesis
      using job a put by (simp add: fill_cell_def K'_def v_def i')
  next
    case False
    then show ?thesis
      using job a b put by (simp add: fill_cell_def K'_def v_def i' Let_def)
  qed
  have len': "length K' = length jobs + 1" by (simp add: K'_def len)
  have nth_other: "K' ! r = K ! r" if "r \<noteq> i" for r
    using that by (simp add: K'_def)
  have nth_i: "K' ! i = (K ! i)[nat j := v]"
    using i len by (simp add: K'_def)
  have rows': "length (K' ! r) = nat (cores + 1)" if "r \<le> length jobs" for r
    using that rows[of r] nth_other[of r] nth_i by (cases "r = i") auto
  have col0': "K' ! r ! 0 = 0" if "r \<le> length jobs" for r
    using that col0[of r] nth_other[of r] nth_i j by (cases "r = i") auto
  have filled': "K' ! r ! nat c = spec_cell thr jobs r c" if "r < i" "0 \<le> c" "c \<le> cores" for r c
    using that filled[of r c] nth_other[of r] by simp
  have row': "K' ! i ! nat c = spec_cell thr jobs i c" if "0 \<le> c" "c < j + 1" for c
  proof (cases "c = j")
    case True
    then show ?thesis using nth_i rows[of i] i j by (simp add: v_def)
  next
    case False
    then have "nat c \<noteq> nat j" using that j by auto
    then show ?thesis using nth_i row[of c] that False by simp
  qed
  show ?thesis
    using res len' rows' col0' filled' row' by (auto simp: row_upto_def table_upto_def)
qed

lemma fill_row_step:
  assumes nn: "\<forall>x\<in>set jobs. 0 \<le> thr x"
    and i: "1 \<le> i" "i \<le> length jobs"
    and c: "0 \<le> cores"
    and inv: "table_upto thr jobs cores K i"
  shows "\<exists>K'. fill_row thr jobs (cores + 1) i K = Some K' \<and> table_upto thr jobs cores K' (Suc i)"
proof -
  let ?js = "[1 .. cores]"
  let ?P = "\<lambda>k K. row_upto thr jobs cores K i (int k + 1)"
  have len: "length ?js = nat cores" by simp
  have nth: "?js ! k = int k + 1" if "k < nat cores" for k
    using that by simp
  have col0: "K ! i ! 0 = spec_cell thr jobs i 0"
    using inv i nn by (simp add: table_upto_def spec_cell_col0)
  have "?P 0 K"
    unfolding row_upto_def
  proof (intro conjI allI impI)
    show "table_upto thr jobs cores K i" by (rule inv)
  next
    fix c :: int assume "0 \<le> c \<and> c < int 0 + 1"
    then have "c = 0" by simp
    then show "K ! i ! nat c = spec_cell thr jobs i c" using col0 by simp
  qed
  moreover have "\<exists>s'. fill_cell thr jobs i (?js ! k) s = Some s' \<and> ?P (Suc k) s'"
    if "k < length ?js" "?P k s" for k s
  proof -
    have k: "k < nat cores" using that(1) by simp
    have "\<exists>K'. fill_cell thr jobs i (int k + 1) s = Some K' \<and> row_upto thr jobs cores K' i (int k + 1 + 1)"
      by (rule fill_cell_step[OF nn i _ _ that(2)]) (use k in auto)
    then show ?thesis using nth[OF k] by (simp add: add.commute)
  qed
  ultimately have "\<exists>s'. for_each ?js (fill_cell thr jobs i) K = Some s' \<and> ?P (length ?js) s'"
    by (rule for_each_invariant)
  then obtain K' where K': "fill_row thr jobs (cores + 1) i K = Some K'"
    and r: "row_upto thr jobs cores K' i (int (nat cores) + 1)"
    by (auto simp: fill_row_def)
  from r c have "table_upto thr jobs cores K' (Suc i)"
    by (auto simp: row_upto_def table_upto_def less_Suc_eq)
  with K' show ?thesis by blast
qed

lemma fill_table_correct:
  assumes nn: "\<forall>x\<in>set jobs. 0 \<le> thr x" and c: "0 \<le> cores"
  shows "\<exists>K. fill_table thr jobs (length jobs + 1) (cores + 1)
               (replicate (length jobs + 1) (replicate (nat (cores + 1)) 0)) = Some K
             \<and> table_upto thr jobs cores K (Suc (length jobs))"
proof -
  let ?K0 = "replicate (length jobs + 1) (replicate (nat (cores + 1)) (0::int))"
  let ?is = "[1 ..< length jobs + 1]"
  let ?P = "\<lambda>k K. table_upto thr jobs cores K (Suc k)"
  have "?P 0 ?K0"
    using c by (auto simp: table_upto_def simp del: replicate_Suc)
  moreover have "\<exists>s'. fill_row thr jobs (cores + 1) (?is ! k) s = Some s' \<and> ?P (Suc k) s'"
    if "k < length ?is" "?P k s" for k s
  proof -
    have k: "k < length jobs" using that(1) by (simp del: upt_Suc)
    have "\<exists>K'. fill_row thr jobs (cores + 1) (Suc k) s = Some K' \<and> table_upto thr jobs cores K' (Suc (Suc k))"
      by (rule fill_row_step[OF nn _ _ c that(2)]) (use k in auto)
    moreover have "?is ! k = Suc k" using k by (simp del: upt_Suc)
    ultimately show ?thesis by simp
  qed
  ultimately have "\<exists>s'. for_each ?is (fill_row thr jobs (cores + 1)) ?K0 = Some s' \<and> ?P (length ?is) s'"
    by (rule for_each_invariant)
  then show ?thesis by (auto simp: fill_table_def simp del: upt_Suc replicate_Suc)
qed

section \<open>The table holds the recurrence and the walk reads it\<close>

lemma spec_cell_changed:
  assumes "spec_cell thr jobs (Suc i) j \<noteq> spec_cell thr jobs i j"
  shows "thr (jobs ! i) \<le> j"
    and "spec_cell thr jobs (Suc i) j = thr (jobs ! i) + spec_cell thr jobs i (j - thr (jobs ! i))"
  using assms by (auto simp: Let_def max_def split: if_splits)

lemma K_get_nat:
  "i < length K \<Longrightarrow> 0 \<le> j \<Longrightarrow> j < int (length (K ! i)) \<Longrightarrow> K_get K (int i) j = Some (K ! i ! nat j)"
  using K_get_in_range[of "int i" K j] by simp

lemma backtrack_walk:
  assumes nn: "\<forall>x\<in>set jobs. 0 \<le> thr x"
    and tab: "table_upto thr jobs cores K (Suc (length jobs))"
  shows "i \<le> length jobs \<Longrightarrow> 0 \<le> j \<Longrightarrow> j \<le> cores \<Longrightarrow>
         backtrack thr jobs K i j sol = Some (sol \<union> spec_walk thr jobs i j)"
proof (induction i arbitrary: j sol)
  case 0
  then show ?case by simp
next
  case (Suc i)
  let ?t = "thr (jobs ! i)"
  from tab have len: "length K = length jobs + 1"
    and rows: "\<And>r. r \<le> length jobs \<Longrightarrow> length (K ! r) = nat (cores + 1)"
    and filled: "\<And>r c. r \<le> length jobs \<Longrightarrow> 0 \<le> c \<Longrightarrow> c \<le> cores \<Longrightarrow> K ! r ! nat c = spec_cell thr jobs r c"
    by (auto simp: table_upto_def less_Suc_eq_le)
  have t: "0 \<le> ?t" using nn Suc.prems by simp
  have "K_get K (int (Suc i)) j = Some (K ! Suc i ! nat j)"
    using Suc.prems len rows[of "Suc i"] by (intro K_get_nat) auto
  then have a: "K_get K (int (Suc i)) j = Some (spec_cell thr jobs (Suc i) j)"
    using Suc.prems filled[of "Suc i" j] by (simp only:)
  have "K_get K (int i) j = Some (K ! i ! nat j)"
    using Suc.prems len rows[of i] by (intro K_get_nat) auto
  then have b: "K_get K (int (Suc i) - 1) j = Some (spec_cell thr jobs i j)"
    using Suc.prems filled[of i j] by simp
  have job: "py_get jobs (int (Suc i) - 1) = Some (jobs ! i)"
    using Suc.prems by (simp add: py_get_in_range)
  show ?case
  proof (cases "spec_cell thr jobs (Suc i) j \<noteq> spec_cell thr jobs i j")
    case True
    then have "?t \<le> j" by (rule spec_cell_changed)
    then have "backtrack thr jobs K i (j - ?t) (insert (jobs ! i) sol)
               = Some (insert (jobs ! i) sol \<union> spec_walk thr jobs i (j - ?t))"
      using Suc.prems t by (intro Suc.IH) auto
    then show ?thesis
      using True a b job by (simp del: spec_cell.simps of_nat_Suc)
  next
    case False
    have "backtrack thr jobs K i j sol = Some (sol \<union> spec_walk thr jobs i j)"
      using Suc.prems by (intro Suc.IH) auto
    then show ?thesis
      using False a b job by (simp del: spec_cell.simps of_nat_Suc)
  qed
qed

lemma selector_refines_walk:
  assumes nn: "\<forall>x\<in>set jobs. 0 \<le> thr x" and c: "0 \<le> cores"
  shows "thread_based_selector thr cores jobs = Some (spec_walk thr jobs (length jobs) cores)"
proof -
  from fill_table_correct[OF nn c] obtain K where
    K: "fill_table thr jobs (length jobs + 1) (cores + 1)
          (replicate (length jobs + 1) (replicate (nat (cores + 1)) 0)) = Some K"
    and tab: "table_upto thr jobs cores K (Suc (length jobs))"
    by blast
  have "backtrack thr jobs K (length jobs) cores {} = Some ({} \<union> spec_walk thr jobs (length jobs) cores)"
    using c by (intro backtrack_walk[OF nn tab]) auto
  then show ?thesis
    using K by (simp add: thread_based_selector_def Let_def del: replicate_Suc)
qed

lemma spec_walk_subset: "i \<le> length jobs \<Longrightarrow> spec_walk thr jobs i j \<subseteq> set (take i jobs)"
proof (induction i arbitrary: j)
  case 0
  then show ?case by simp
next
  case (Suc i)
  then have "spec_walk thr jobs i j' \<subseteq> set (take i jobs)" for j' by simp
  then show ?case
    using Suc.prems by (auto simp: take_Suc_conv_app_nth simp del: spec_cell.simps)
qed

lemma spec_walk_sum:
  assumes d: "distinct jobs"
  shows "i \<le> length jobs \<Longrightarrow> sum thr (spec_walk thr jobs i j) = spec_cell thr jobs i j"
proof (induction i arbitrary: j)
  case 0
  then show ?case by simp
next
  case (Suc i)
  let ?t = "thr (jobs ! i)"
  have i: "i < length jobs" using Suc.prems by simp
  have sub: "spec_walk thr jobs i j' \<subseteq> set (take i jobs)" for j'
    using i by (intro spec_walk_subset) simp
  have fin: "finite (spec_walk thr jobs i j')" for j'
    using sub[of j'] by (rule finite_subset) simp
  have "jobs ! i \<notin> set (take i jobs)"
    using d i by (auto simp: in_set_conv_nth nth_eq_iff_index_eq)
  then have notin: "jobs ! i \<notin> spec_walk thr jobs i j'" for j'
    using sub[of j'] by blast
  have IH: "sum thr (spec_walk thr jobs i j') = spec_cell thr jobs i j'" for j'
    using i by (intro Suc.IH) simp
  show ?case
  proof (cases "spec_cell thr jobs (Suc i) j \<noteq> spec_cell thr jobs i j")
    case True
    have "sum thr (spec_walk thr jobs (Suc i) j) = ?t + sum thr (spec_walk thr jobs i (j - ?t))"
      using True fin notin by (simp del: spec_cell.simps)
    also have "\<dots> = ?t + spec_cell thr jobs i (j - ?t)" by (simp only: IH)
    also have "\<dots> = spec_cell thr jobs (Suc i) j"
      using spec_cell_changed(2)[OF True] by simp
    finally show ?thesis .
  next
    case False
    then show ?thesis using IH[of j] by (simp del: spec_cell.simps)
  qed
qed

lemma spec_cell_upper:
  assumes nn: "\<forall>x\<in>set jobs. 0 \<le> thr x"
  shows "i \<le> length jobs \<Longrightarrow> T \<subseteq> set (take i jobs) \<Longrightarrow> sum thr T \<le> j \<Longrightarrow>
         sum thr T \<le> spec_cell thr jobs i j"
proof (induction i arbitrary: j T)
  case 0
  then show ?case by simp
next
  case (Suc i)
  let ?x = "jobs ! i"
  let ?t = "thr ?x"
  have i: "i < length jobs" using Suc.prems by simp
  have fin: "finite T" using Suc.prems(2) by (rule finite_subset) simp
  have Tnn: "0 \<le> sum thr T'" if "T' \<subseteq> T" for T'
  proof (rule sum_nonneg)
    fix x assume "x \<in> T'"
    then have "x \<in> set (take (Suc i) jobs)" using that Suc.prems(2) by blast
    then have "x \<in> set jobs" by (rule in_set_takeD)
    then show "0 \<le> thr x" using nn by simp
  qed
  show ?case
  proof (cases "?x \<in> T")
    case False
    then have "T \<subseteq> set (take i jobs)"
      using Suc.prems(2) i by (auto simp: take_Suc_conv_app_nth)
    then have "sum thr T \<le> spec_cell thr jobs i j"
      using Suc.prems i by (intro Suc.IH) auto
    also have "\<dots> \<le> spec_cell thr jobs (Suc i) j" by (rule spec_cell_mono_row)
    finally show ?thesis .
  next
    case True
    let ?T' = "T - {?x}"
    have split: "sum thr T = ?t + sum thr ?T'"
      using fin True by (rule sum.remove)
    have sub: "?T' \<subseteq> set (take i jobs)"
      using Suc.prems(2) i by (auto simp: take_Suc_conv_app_nth)
    have le: "sum thr ?T' \<le> j - ?t" using split Suc.prems(3) by simp
    have "0 \<le> sum thr ?T'" by (rule Tnn) blast
    then have tj: "?t \<le> j" using le by simp
    have "sum thr ?T' \<le> spec_cell thr jobs i (j - ?t)"
      using sub le i by (intro Suc.IH) auto
    then have "sum thr T \<le> ?t + spec_cell thr jobs i (j - ?t)" using split by simp
    also have "\<dots> \<le> spec_cell thr jobs (Suc i) j" using tj by (simp add: Let_def)
    finally show ?thesis .
  qed
qed

lemma spec_walk_sum_le:
  assumes nn: "\<forall>x\<in>set jobs. 0 \<le> thr x"
  shows "i \<le> length jobs \<Longrightarrow> sum thr (spec_walk thr jobs i j) \<le> spec_cell thr jobs i j"
proof (induction i arbitrary: j)
  case 0
  then show ?case by simp
next
  case (Suc i)
  let ?t = "thr (jobs ! i)"
  have i: "i < length jobs" using Suc.prems by simp
  have t: "0 \<le> ?t" using nn i by simp
  have fin: "finite (spec_walk thr jobs i j')" for j'
    using spec_walk_subset[of i jobs thr j'] i by (auto intro: finite_subset)
  have IH: "sum thr (spec_walk thr jobs i j') \<le> spec_cell thr jobs i j'" for j'
    using i by (intro Suc.IH) simp
  show ?case
  proof (cases "spec_cell thr jobs (Suc i) j \<noteq> spec_cell thr jobs i j")
    case True
    have "sum thr (spec_walk thr jobs (Suc i) j) \<le> ?t + sum thr (spec_walk thr jobs i (j - ?t))"
      using True fin t by (simp add: sum.insert_if del: spec_cell.simps)
    also have "\<dots> \<le> ?t + spec_cell thr jobs i (j - ?t)" using IH by simp
    also have "\<dots> = spec_cell thr jobs (Suc i) j"
      using spec_cell_changed(2)[OF True] by simp
    finally show ?thesis .
  next
    case False
    then show ?thesis using IH[of j] by (simp del: spec_cell.simps)
  qed
qed

section \<open>The knapsack selector\<close>

text \<open>
  C1. For a list of distinct candidate jobs with thread requirements that are not
  negative and a budget that is not negative, the thread-based selector returns a subset
  of the candidates whose total thread requirement does not exceed the budget, and no
  subset of the candidates that fits the budget has a larger total.
\<close>

theorem thread_based_selector_optimal:
  assumes "0 \<le> cores" and "\<forall>job\<in>set jobs. 0 \<le> thr job" and "distinct jobs"
  shows "\<exists>S. thread_based_selector thr cores jobs = Some S \<and> S \<subseteq> set jobs \<and>
             sum thr S \<le> cores \<and>
             (\<forall>T. T \<subseteq> set jobs \<and> sum thr T \<le> cores \<longrightarrow> sum thr T \<le> sum thr S)"
proof -
  let ?S = "spec_walk thr jobs (length jobs) cores"
  have sel: "thread_based_selector thr cores jobs = Some ?S"
    using assms(2,1) by (rule selector_refines_walk)
  have sub: "?S \<subseteq> set jobs"
    using spec_walk_subset[of "length jobs" jobs thr cores] by simp
  have total: "sum thr ?S = spec_cell thr jobs (length jobs) cores"
    using assms(3) by (rule spec_walk_sum) simp
  have fits: "sum thr ?S \<le> cores"
    using total spec_cell_le[OF assms(2) _ assms(1), of "length jobs"] by simp
  have best: "sum thr T \<le> sum thr ?S" if "T \<subseteq> set jobs" "sum thr T \<le> cores" for T
    using spec_cell_upper[OF assms(2), of "length jobs" T cores] that total by simp
  show ?thesis using sel sub fits best by blast
qed

text \<open>
  The scenario A(2), C(2), B(3) with budget 4: the selection fills the budget, since
  \<open>{A, C}\<close> does and nothing that fits is larger.
\<close>

theorem thread_based_selector_optimal_witness:
  "\<exists>S. thread_based_selector acb_threads 4 [0, 1, 2] = Some S \<and>
       S \<subseteq> {0, 1, 2} \<and> sum acb_threads S = 4"
proof -
  have h1: "(0::int) \<le> 4" by simp
  have h2: "\<forall>job\<in>set [0, 1, 2]. 0 \<le> acb_threads job"
    by (simp add: acb_threads_def acb_heap_def)
  have h3: "distinct [0::nat, 1, 2]" by simp
  from thread_based_selector_optimal[of 4 "[0, 1, 2]" acb_threads, OF h1 h2 h3]
  obtain S where S: "thread_based_selector acb_threads 4 [0, 1, 2] = Some S"
    "S \<subseteq> set [0, 1, 2]" "sum acb_threads S \<le> 4"
    "\<And>T. T \<subseteq> set [0, 1, 2] \<Longrightarrow> sum acb_threads T \<le> 4 \<Longrightarrow> sum acb_threads T \<le> sum acb_threads S"
    by blast
  have "sum acb_threads {0, 1} \<le> sum acb_threads S"
    by (rule S(4)) (simp_all add: acb_threads_def acb_heap_def)
  then have "4 \<le> sum acb_threads S" by (simp add: acb_threads_def acb_heap_def)
  with S(1,2,3) show ?thesis by auto
qed

text \<open>
  C8. The subset the thread-based selector returns is the one read off the table of the
  recurrence by the backward walk from cell(n, budget): candidate \<open>i\<close> is taken exactly
  when cell(i, j) differs from cell(i-1, j), and \<open>j\<close> is then reduced by its thread
  requirement. The table the two loops fill holds the cells of the recurrence, so the
  result is a function of the candidate order alone.
\<close>

theorem thread_based_selector_walk:
  assumes "0 \<le> cores" and "\<forall>job\<in>set jobs. 0 \<le> thr job"
  shows "thread_based_selector thr cores jobs = Some (spec_walk thr jobs (length jobs) cores)"
  using assms(2,1) by (rule selector_refines_walk)

text \<open>
  With budget 2 both \<open>{A}\<close> and \<open>{C}\<close> are optimal; the walk meets C first, finds
  cell(2, 2) = cell(1, 2) and leaves it out, then takes A.
\<close>

theorem thread_based_selector_walk_witness:
  "thread_based_selector acb_threads 2 [0, 1] = Some {0}"
proof -
  have h1: "(0::int) \<le> 2" by simp
  have h2: "\<forall>job\<in>set [0, 1]. 0 \<le> acb_threads job"
    by (simp add: acb_threads_def acb_heap_def)
  have "spec_walk acb_threads [0, 1] (length [0::nat, 1]) 2 = {0}"
    by (simp add: acb_threads_def acb_heap_def eval_nat_numeral)
  with thread_based_selector_walk[of 2 "[0, 1]" acb_threads, OF h1 h2] show ?thesis
    by (simp only:)
qed

lemma for_each_skip: "(\<And>x s. body x s = Some s) \<Longrightarrow> for_each xs body s = Some s"
  by (induction xs) simp_all

lemma fill_table_no_columns:
  "fill_table thr jobs dimi 1 K = Some K"
  by (simp add: fill_table_def fill_row_def for_each_skip)

lemma backtrack_column0:
  "i \<le> n \<Longrightarrow> backtrack thr jobs (replicate (Suc n) [0]) i 0 sol = Some sol"
proof (induction i arbitrary: sol)
  case 0
  then show ?case by simp
next
  case (Suc i)
  have a: "K_get (replicate (Suc n) [0]) (int (Suc i)) 0 = Some 0"
    using Suc.prems by (subst K_get_nat) (simp_all del: replicate_Suc)
  have "K_get (replicate (Suc n) [0]) (int i) 0 = Some 0"
    using Suc.prems by (subst K_get_nat) (simp_all del: replicate_Suc)
  then have b: "K_get (replicate (Suc n) [0]) (int (Suc i) - 1) 0 = Some 0"
    by simp
  have "backtrack thr jobs (replicate (Suc n) [0]) i 0 sol = Some sol"
    using Suc.prems by (intro Suc.IH) simp
  then show ?case using a b by (simp del: replicate_Suc of_nat_Suc)
qed

text \<open>
  C9. With a budget of zero, or with no candidates, the thread-based selector returns
  the empty set, whatever the thread requirements are.
\<close>

theorem thread_based_selector_nothing:
  assumes "cores = 0 \<or> jobs = []"
  shows "thread_based_selector thr cores jobs = Some {}"
proof (cases "jobs = []")
  case True
  then show ?thesis
    by (simp add: thread_based_selector_def fill_table_def)
next
  case False
  with assms have c: "cores = 0" by simp
  have K0: "replicate (length jobs + 1) (replicate (nat (0 + 1)) (0::int)) = replicate (Suc (length jobs)) [0]"
    by simp
  show ?thesis
    unfolding thread_based_selector_def Let_def c K0
    by (simp add: fill_table_no_columns backtrack_column0 del: replicate_Suc)
qed

theorem thread_based_selector_nothing_witness:
  "thread_based_selector acb_threads 0 [0, 1, 2] = Some {} \<and>
   thread_based_selector acb_threads 4 [] = Some {}"
  using thread_based_selector_nothing[of 0 "[0, 1, 2]" acb_threads]
    thread_based_selector_nothing[of 4 "[]" acb_threads]
  by simp

section \<open>The fallback selector\<close>

lemma selector_nonneg: "0 \<le> cores \<Longrightarrow> selector cores jobs = take (nat cores) jobs"
  by (auto simp: selector_def py_slice_to_def Let_def min_def)

lemma selector_neg:
  "cores < 0 \<Longrightarrow> selector cores jobs = take (length jobs - nat (- cores)) jobs"
proof -
  assume c: "cores < 0"
  have "nat (max (int (length jobs) + cores) 0) = length jobs - nat (- cores)"
    using c by (auto simp: max_def) 
  then show ?thesis using c by (simp add: selector_def py_slice_to_def Let_def)
qed

text \<open>
  C10. With a remaining-core counter of zero the fallback selector returns the empty
  list; with a counter of \<open>-k\<close>, \<open>k > 0\<close>, and more than \<open>k\<close> jobs it returns the
  first \<open>n - k\<close> of the \<open>n\<close> jobs, which is not empty.
\<close>

theorem fallback_selector_without_capacity:
  assumes "u_executor s \<noteq> CPUExecutor"
  shows "(u_cores s = 0 \<longrightarrow> u_selector s jobs = Some (Listed [])) \<and>
         (u_cores s = - int k \<and> 0 < k \<and> k < length jobs \<longrightarrow>
            u_selector s jobs = Some (Listed (take (length jobs - k) jobs)) \<and>
            take (length jobs - k) jobs \<noteq> [])"
  using assms by (auto simp: u_selector_def selector_nonneg selector_neg)

theorem fallback_selector_without_capacity_witness:
  "u_selector ((init acb_heap 3 2 False False True)\<lparr>u_cores := 0\<rparr>) [0, 1, 2] = Some (Listed []) \<and>
   u_selector ((init acb_heap 3 2 False False True)\<lparr>u_cores := - 2\<rparr>) [0, 1, 2] = Some (Listed [0])"
proof -
  let ?s = "init acb_heap 3 2 False False True"
  have e: "u_executor (?s\<lparr>u_cores := c\<rparr>) \<noteq> CPUExecutor" for c
    by (simp add: init_def)
  show ?thesis
    using fallback_selector_without_capacity[OF e, of 0 "[0, 1, 2]" 0]
      fallback_selector_without_capacity[OF e, of "- 2" "[0, 1, 2]" 2]
    by simp
qed

lemma spec_prefix_unit:
  "\<forall>job\<in>set jobs. thr job = 1 \<Longrightarrow> 0 \<le> budget \<Longrightarrow> spec_prefix thr budget jobs = take (nat budget) jobs"
proof (induction jobs arbitrary: budget)
  case Nil
  then show ?case by simp
next
  case (Cons job jobs)
  show ?case
  proof (cases "budget = 0")
    case True
    then show ?thesis using Cons.prems by simp
  next
    case False
    then have b: "1 \<le> budget" using Cons.prems by simp
    then obtain m where m: "nat budget = Suc m" "nat (budget - 1) = m"
      by (cases "nat budget") auto
    have "spec_prefix thr (budget - 1) jobs = take (nat (budget - 1)) jobs"
      using Cons.prems b by (intro Cons.IH) auto
    then show ?thesis using Cons.prems b m by simp
  qed
qed

text \<open>
  C3, as stated, fails: in cluster mode with two cores left and the jobs A and C of two
  threads each, the fallback selector returns both, four threads in all, while the
  longest prefix within the budget is A alone.
\<close>

theorem fallback_selector_counterexample:
  "u_selector (init acb_heap 3 2 False False True) [0, 1] = Some (Listed [0, 1]) \<and>
   sum_list (map acb_threads [0, 1]) = 4 \<and>
   spec_prefix acb_threads 2 [0, 1] = [0]"
  by (simp add: u_selector_def init_def selector_def py_slice_to_def acb_threads_def acb_heap_def)

text \<open>
  C3, amended. In dry-run, touch and cluster mode the executor is not the CPU executor,
  and then, for a remaining-core counter that is not negative, the selector returns the
  first \<open>min(counter, n)\<close> jobs in listed order: it counts jobs, not threads. That is
  the longest prefix within the budget when every job requires one thread.
\<close>

theorem fallback_selector_counts_jobs:
  assumes "u_executor s \<noteq> CPUExecutor" and "0 \<le> u_cores s"
  shows "(u_executor (init h n c dryrun_arg touch cluster) \<noteq> CPUExecutor
            \<longleftrightarrow> dryrun_arg \<or> touch \<or> cluster) \<and>
         u_selector s jobs = Some (Listed (take (nat (u_cores s)) jobs)) \<and>
         ((\<forall>job\<in>set jobs. threads (heap s job) = 1) \<longrightarrow>
            take (nat (u_cores s)) jobs
              = spec_prefix (\<lambda>job. threads (heap s job)) (u_cores s) jobs)"
  using assms by (simp add: u_selector_def selector_nonneg spec_prefix_unit init_def)

theorem fallback_selector_counts_jobs_witness:
  "u_executor (init unit_heap 3 2 False False True) \<noteq> CPUExecutor \<and>
   u_selector (init unit_heap 3 2 False False True) [0, 1, 2] = Some (Listed [0, 1]) \<and>
   spec_prefix (\<lambda>job. threads (unit_heap job)) 2 [0, 1, 2] = [0, 1]"
proof -
  let ?s = "init unit_heap 3 2 False False True"
  have e: "u_executor ?s \<noteq> CPUExecutor" by (simp add: init_def)
  have c: "0 \<le> u_cores ?s" by (simp add: init_def)
  have u: "\<forall>job\<in>set [0, 1, 2]. threads (heap ?s job) = 1"
    by (simp add: init_def unit_heap_def)
  have t: "take (nat (u_cores ?s)) [0::nat, 1, 2] = [0, 1]"
    by (simp add: init_def eval_nat_numeral)
  have hp: "heap ?s = unit_heap" and uc: "u_cores ?s = 2" by (simp_all add: init_def)
  from fallback_selector_counts_jobs[OF e c, of unit_heap 3 2 False False True "[0, 1, 2]"] u
  have "u_selector ?s [0, 1, 2] = Some (Listed (take (nat (u_cores ?s)) [0, 1, 2]))"
    and "take (nat (u_cores ?s)) [0, 1, 2]
          = spec_prefix (\<lambda>job. threads (heap ?s job)) (u_cores ?s) [0, 1, 2]"
    by blast+
  then show ?thesis using e unfolding t hp uc by simp
qed

section \<open>The loop that collects the candidates\<close>

lemma collect_Cons:
  "collect (job # ready) s acc
     = collect ready (visit job s) (if needrun (heap s job) then acc @ [job] else acc)"
  by (simp add: visit_def oversized_def Let_def)

lemma visit_heap:
  "heap (visit job s) x = (if x = job \<and> oversized s job then (heap s job)\<lparr>threads := maxcores s\<rparr> else heap s x)"
  by (simp add: visit_def)

lemma visit_fields:
  "maxcores (visit job s) = maxcores s"
  "dryrun (visit job s) = dryrun s"
  "u_cores (visit job s) = u_cores s"
  "u_executor (visit job s) = u_executor s"
  "u_errors (visit job s) = u_errors s"
  "u_open_jobs (visit job s) = u_open_jobs s"
  "submitted (visit job s) = submitted s"
  "ended (visit job s) = ended s"
  "dag_finished (visit job s) = dag_finished s"
  "finished_jobs (visit job s) = finished_jobs s"
  "shutdowns (visit job s) = shutdowns s"
  "returned (visit job s) = returned s"
  "dag_size (visit job s) = dag_size s"
  "u_jobs (visit job s) = u_jobs s"
  by (simp_all add: visit_def)

lemma visit_needrun: "needrun (heap (visit job s) x) = needrun (heap s x)"
  by (simp add: visit_heap)

lemma visit_oversized: "oversized (visit job s) x \<longleftrightarrow> x \<noteq> job \<and> oversized s x"
  by (auto simp: oversized_def visit_heap visit_fields)

lemma visit_logged:
  "logged (visit job s) = logged s @
     (if oversized s job \<and> \<not> dryrun s
      then [TooManyThreads (rule (heap s job)) (threads (heap s job)) (maxcores s)] else [])"
  by (simp add: visit_def)

lemma collect_fst:
  "fst (collect ready s acc) = acc @ filter (\<lambda>job. needrun (heap s job)) ready"
proof (induction ready arbitrary: s acc)
  case Nil
  then show ?case by simp
next
  case (Cons job ready)
  show ?case
    unfolding collect_Cons Cons.IH by (simp add: visit_needrun)
qed

lemma collect_heap:
  "heap (snd (collect ready s acc)) x =
     (if x \<in> set ready \<and> oversized s x then (heap s x)\<lparr>threads := maxcores s\<rparr> else heap s x)"
proof (induction ready arbitrary: s acc)
  case Nil
  then show ?case by simp
next
  case (Cons job ready)
  show ?case
    unfolding collect_Cons Cons.IH
    by (auto simp: visit_oversized visit_heap visit_fields)
qed

lemma collect_fields:
  "maxcores (snd (collect ready s acc)) = maxcores s"
  "dryrun (snd (collect ready s acc)) = dryrun s"
  "u_cores (snd (collect ready s acc)) = u_cores s"
  "u_executor (snd (collect ready s acc)) = u_executor s"
  "u_errors (snd (collect ready s acc)) = u_errors s"
  "u_open_jobs (snd (collect ready s acc)) = u_open_jobs s"
  "submitted (snd (collect ready s acc)) = submitted s"
  "ended (snd (collect ready s acc)) = ended s"
  "dag_finished (snd (collect ready s acc)) = dag_finished s"
  "finished_jobs (snd (collect ready s acc)) = finished_jobs s"
  "shutdowns (snd (collect ready s acc)) = shutdowns s"
  "returned (snd (collect ready s acc)) = returned s"
  "dag_size (snd (collect ready s acc)) = dag_size s"
  "u_jobs (snd (collect ready s acc)) = u_jobs s"
  by (induction ready arbitrary: s acc; simp only: collect_Cons visit_fields collect.simps(1) snd_conv)+

lemma collect_logged_dryrun:
  "dryrun s \<Longrightarrow> logged (snd (collect ready s acc)) = logged s"
proof (induction ready arbitrary: s acc)
  case Nil
  then show ?case by simp
next
  case (Cons job ready)
  have "logged (snd (collect ready (visit job s) acc')) = logged (visit job s)" for acc'
    using Cons.prems by (intro Cons.IH) (simp add: visit_fields)
  then show ?case
    unfolding collect_Cons using Cons.prems by (simp add: visit_logged)
qed

lemma collect_logged_extends:
  "\<exists>ws. logged (snd (collect ready s acc)) = logged s @ ws"
proof (induction ready arbitrary: s acc)
  case Nil
  then show ?case by simp
next
  case (Cons job ready)
  obtain ws where "logged (snd (collect (job # ready) s acc)) = logged (visit job s) @ ws"
    unfolding collect_Cons using Cons.IH by blast
  then show ?case by (simp add: visit_logged)
qed

lemma collect_logged_warns:
  assumes "\<not> dryrun s" "job \<in> set ready" "oversized s job"
  shows "\<exists>ws. logged (snd (collect ready s acc)) = logged s @ ws \<and>
              TooManyThreads (rule (heap s job)) (threads (heap s job)) (maxcores s) \<in> set ws"
  using assms
proof (induction ready arbitrary: s acc)
  case Nil
  then show ?case by simp
next
  case (Cons x ready)
  let ?W = "TooManyThreads (rule (heap s job)) (threads (heap s job)) (maxcores s)"
  let ?acc = "if needrun (heap s x) then acc @ [x] else acc"
  show ?case
  proof (cases "x = job")
    case True
    obtain ws where "logged (snd (collect ready (visit job s) ?acc)) = logged (visit job s) @ ws"
      using collect_logged_extends by blast
    then have "logged (snd (collect (x # ready) s acc)) = logged s @ (?W # ws)"
      unfolding collect_Cons using True Cons.prems by (simp add: visit_logged)
    then show ?thesis by (intro exI[of _ "?W # ws"]) simp
  next
    case False
    then have "job \<in> set ready" using Cons.prems by simp
    moreover have "oversized (visit x s) job"
      using False Cons.prems by (simp add: visit_oversized)
    moreover have "\<not> dryrun (visit x s)" using Cons.prems by (simp add: visit_fields)
    ultimately obtain ws where
      ws: "logged (snd (collect ready (visit x s) ?acc)) = logged (visit x s) @ ws"
        "TooManyThreads (rule (heap (visit x s) job)) (threads (heap (visit x s) job))
           (maxcores (visit x s)) \<in> set ws"
      using Cons.IH[of "visit x s" ?acc] by blast
    have same: "heap (visit x s) job = heap s job" using False by (simp add: visit_heap)
    obtain pre where pre: "logged (visit x s) = logged s @ pre" by (simp add: visit_logged)
    have "logged (snd (collect (x # ready) s acc)) = logged s @ (pre @ ws)"
      unfolding collect_Cons using ws(1) pre by simp
    moreover have "?W \<in> set (pre @ ws)" using ws(2) same by (simp add: visit_fields)
    ultimately show ?thesis by blast
  qed
qed

section \<open>One pass of the scheduling loop and the callbacks\<close>

lemma schedule_step_cases:
  assumes "schedule_step ready s = Some s'"
  obtains
    (failed) "u_errors s"
      "s' = s\<lparr>u_open_jobs := False, logged := logged s @ [WillExit],
              shutdowns := shutdowns s + 1, returned := Some False\<rparr>"
  | (complete) s1 where "\<not> u_errors s"
      "collect ready (s\<lparr>u_open_jobs := False\<rparr>) [] = ([], s1)"
      "s' = s1\<lparr>shutdowns := shutdowns s1 + 1, returned := Some True\<rparr>"
  | (dispatch) candidates s1 run where "\<not> u_errors s"
      "collect ready (s\<lparr>u_open_jobs := False\<rparr>) [] = (candidates, s1)"
      "candidates \<noteq> []"
      "u_selector s1 candidates = Some run"
      "s' = s1\<lparr>u_cores := u_cores s1 - (\<Sum>job\<in>#jobs_of run. threads (heap s1 job)),
               submitted := submitted s1 + jobs_of run\<rparr>"
  using assms
  by (auto simp: schedule_step_def Let_def split: if_splits prod.splits bind_splits)

lemma schedule_step_dispatchI:
  assumes "\<not> u_errors s"
    and "collect ready (s\<lparr>u_open_jobs := False\<rparr>) [] = (candidates, s1)"
    and "candidates \<noteq> []"
    and "u_selector s1 candidates = Some run"
  shows "schedule_step ready s
           = Some (s1\<lparr>u_cores := u_cores s1 - (\<Sum>job\<in>#jobs_of run. threads (heap s1 job)),
                      submitted := submitted s1 + jobs_of run\<rparr>)"
  using assms by (simp add: schedule_step_def)

lemma schedule_step_dispatch:
  assumes "schedule_step ready s = Some s'"
  shows "\<exists>run. submitted s' = submitted s + run \<and>
               u_cores s' = u_cores s - (\<Sum>job\<in>#run. threads (heap s' job))"
  using assms
proof (cases rule: schedule_step_cases)
  case failed
  then show ?thesis by (intro exI[of _ "{#}"]) simp
next
  case (complete s1)
  then show ?thesis
    using collect_fields(3,7)[of ready "s\<lparr>u_open_jobs := False\<rparr>" "[]"]
    by (intro exI[of _ "{#}"]) simp
next
  case (dispatch candidates s1 run)
  then show ?thesis
    using collect_fields(3,7)[of ready "s\<lparr>u_open_jobs := False\<rparr>" "[]"]
    by (intro exI[of _ "jobs_of run"]) simp
qed

lemma finished_fields:
  assumes "finished job s = Some s'"
  shows "ended s' = add_mset job (ended s)"
    and "u_cores s' = (if needrun (heap s job) then u_cores s + threads (heap s job) else u_cores s)"
    and "finished_jobs s' = finished_jobs s + 1"
    and "dag_finished s' = add_mset job (dag_finished s)"
    and "u_open_jobs s'"
    and "heap s' = heap s"
    and "submitted s' = submitted s"
    and "maxcores s' = maxcores s"
    and "u_executor s' = u_executor s"
    and "u_errors s' = u_errors s"
    and "returned s' = returned s"
    and "shutdowns s' = shutdowns s"
  using assms
  by (auto simp: finished_def progress_def Let_def split: if_splits)

lemma schedule_step_unfold:
  assumes "\<not> u_errors s" and "collect ready (s\<lparr>u_open_jobs := False\<rparr>) [] = (candidates, s1)"
    and "candidates \<noteq> []"
  shows "schedule_step ready s =
           map_option
             (\<lambda>sel. s1\<lparr>u_cores := u_cores s1 - (\<Sum>job\<in>#jobs_of sel. threads (heap s1 job)),
                        submitted := submitted s1 + jobs_of sel\<rparr>)
             (u_selector s1 candidates)"
  using assms by (cases "u_selector s1 candidates") (simp_all add: schedule_step_def)

lemma u_selector_returns:
  assumes "u_executor s \<noteq> CPUExecutor \<or>
           (0 \<le> u_cores s \<and> (\<forall>x\<in>set jobs. 0 \<le> threads (heap s x)))"
  shows "\<exists>sel. u_selector s jobs = Some sel"
proof (cases "u_executor s = CPUExecutor")
  case True
  with assms have c: "0 \<le> u_cores s" and nn: "\<forall>x\<in>set jobs. 0 \<le> threads (heap s x)" by auto
  show ?thesis
    using selector_refines_walk[OF nn c] True by (simp add: u_selector_def)
next
  case False
  then show ?thesis by (simp add: u_selector_def)
qed

text \<open>
  C4, as stated, fails: a pass that finds the error flag set returns at line 44, before
  the \<open>for\<close> loop. With two cores, no dry run and the flag set, the ready job B, which
  needs to run and asks for three threads, keeps its three threads, no warning is
  logged, and the job is no candidate: the pass dispatches nothing and returns
  \<open>False\<close>.
\<close>

theorem oversized_job_counterexample:
  "\<not> dryrun (error (init acb_heap 3 2 False False False)) \<and>
   needrun (heap (error (init acb_heap 3 2 False False False)) 2) \<and>
   maxcores (error (init acb_heap 3 2 False False False)) = 2 \<and>
   threads (heap (error (init acb_heap 3 2 False False False)) 2) = 3 \<and>
   schedule_step [2] (error (init acb_heap 3 2 False False False)) \<noteq> None \<and>
   threads (heap (the (schedule_step [2] (error (init acb_heap 3 2 False False False)))) 2) = 3 \<and>
   logged (the (schedule_step [2] (error (init acb_heap 3 2 False False False)))) = [WillExit] \<and>
   submitted (the (schedule_step [2] (error (init acb_heap 3 2 False False False)))) = {#} \<and>
   returned (the (schedule_step [2] (error (init acb_heap 3 2 False False False)))) = Some False"
  by (simp add: schedule_step_def error_def init_def acb_heap_def)

text \<open>
  C4, amended. In a pass of the loop that finds the error flag unset, a ready job that
  needs to run and asks for more threads than \<open>maxcores\<close> leaves the \<open>for\<close> loop with
  exactly \<open>maxcores\<close> threads and as a member of the candidate list; the warning is
  logged unless \<open>dryrun\<close> is set, in which case nothing is logged. The pass hands this
  candidate list to the selector and is what the selector makes of it: it raises where
  the selector raises and otherwise dispatches the selection. The selector does not
  raise outside the CPU executor, nor with it when \<open>maxcores\<close>, the counter and the
  thread requirements of the ready jobs are not negative; the pass then dispatches the
  selection, with the clamped requirement and the warning in place, and does not
  return.
\<close>

theorem oversized_job_clamped_and_kept:
  assumes "job \<in> set ready" and "needrun (heap s job)" and "maxcores s < threads (heap s job)"
    and "\<not> u_errors s"
  shows "\<exists>candidates s1.
           collect ready (s\<lparr>u_open_jobs := False\<rparr>) [] = (candidates, s1) \<and>
           job \<in> set candidates \<and>
           threads (heap s1 job) = maxcores s \<and>
           (if dryrun s then logged s1 = logged s
            else \<exists>ws. logged s1 = logged s @ ws \<and>
                   TooManyThreads (rule (heap s job)) (threads (heap s job)) (maxcores s) \<in> set ws) \<and>
           schedule_step ready s =
             map_option
               (\<lambda>sel. s1\<lparr>u_cores := u_cores s1 - (\<Sum>x\<in>#jobs_of sel. threads (heap s1 x)),
                          submitted := submitted s1 + jobs_of sel\<rparr>)
               (u_selector s1 candidates) \<and>
           (u_executor s \<noteq> CPUExecutor \<or>
            (0 \<le> maxcores s \<and> 0 \<le> u_cores s \<and> (\<forall>x\<in>set ready. 0 \<le> threads (heap s x))) \<longrightarrow>
              (\<exists>sel s'. u_selector s1 candidates = Some sel \<and>
                 schedule_step ready s = Some s' \<and> returned s' = returned s \<and>
                 heap s' = heap s1 \<and> logged s' = logged s1 \<and>
                 submitted s' = submitted s + jobs_of sel))"
proof -
  let ?s = "s\<lparr>u_open_jobs := False\<rparr>"
  obtain candidates s1 where c: "collect ready ?s [] = (candidates, s1)"
    by (cases "collect ready ?s []") auto
  then have cand: "candidates = fst (collect ready ?s [])" and s1: "s1 = snd (collect ready ?s [])"
    by simp_all
  have over: "oversized ?s job" using assms(2,3) by (simp add: oversized_def)
  have 1: "job \<in> set candidates"
    using assms(1,2) unfolding cand collect_fst by simp
  have 2: "threads (heap s1 job) = maxcores s"
    using assms(1) over unfolding s1 collect_heap by simp
  have 3: "logged s1 = logged s" if "dryrun s"
    using that collect_logged_dryrun[of ?s ready "[]"] unfolding s1 by simp
  have 4: "\<exists>ws. logged s1 = logged s @ ws \<and>
             TooManyThreads (rule (heap s job)) (threads (heap s job)) (maxcores s) \<in> set ws"
    if "\<not> dryrun s"
    using that collect_logged_warns[of ?s job ready "[]"] assms(1) over unfolding s1 by simp
  have w: "if dryrun s then logged s1 = logged s
            else \<exists>ws. logged s1 = logged s @ ws \<and>
                   TooManyThreads (rule (heap s job)) (threads (heap s job)) (maxcores s) \<in> set ws"
    using 3 4 by (cases "dryrun s") simp_all
  have ne: "candidates \<noteq> []" using 1 by auto
  have eq: "schedule_step ready s =
             map_option
               (\<lambda>sel. s1\<lparr>u_cores := u_cores s1 - (\<Sum>x\<in>#jobs_of sel. threads (heap s1 x)),
                          submitted := submitted s1 + jobs_of sel\<rparr>)
               (u_selector s1 candidates)"
    using assms(4) c ne by (rule schedule_step_unfold)
  have fields: "u_executor s1 = u_executor s" "u_cores s1 = u_cores s" "submitted s1 = submitted s"
    "returned s1 = returned s" "maxcores s1 = maxcores s"
    unfolding s1 by (simp_all add: collect_fields)
  have ex: "\<exists>sel s'. u_selector s1 candidates = Some sel \<and>
                 schedule_step ready s = Some s' \<and> returned s' = returned s \<and>
                 heap s' = heap s1 \<and> logged s' = logged s1 \<and>
                 submitted s' = submitted s + jobs_of sel"
    if h: "u_executor s \<noteq> CPUExecutor \<or>
            (0 \<le> maxcores s \<and> 0 \<le> u_cores s \<and> (\<forall>x\<in>set ready. 0 \<le> threads (heap s x)))"
  proof -
    have "u_executor s1 \<noteq> CPUExecutor \<or>
           (0 \<le> u_cores s1 \<and> (\<forall>x\<in>set candidates. 0 \<le> threads (heap s1 x)))"
    proof (cases "u_executor s = CPUExecutor")
      case True
      with h have m: "0 \<le> maxcores s" and u: "0 \<le> u_cores s"
        and nn: "\<forall>x\<in>set ready. 0 \<le> threads (heap s x)" by auto
      have "0 \<le> threads (heap s1 x)" if "x \<in> set candidates" for x
      proof -
        from that have "x \<in> set ready" unfolding cand collect_fst by simp
        then show ?thesis using m nn unfolding s1 collect_heap by simp
      qed
      then show ?thesis using u fields by simp
    next
      case False
      then show ?thesis using fields by simp
    qed
    then obtain sel where sel: "u_selector s1 candidates = Some sel"
      using u_selector_returns by blast
    show ?thesis
      using sel eq fields by simp
  qed
  show ?thesis
    using ex by (intro exI[of _ candidates] exI[of _ s1] conjI impI) (rule c 1 2 w eq | assumption)+
qed

theorem oversized_job_clamped_and_kept_witness:
  "\<exists>s'. schedule_step [0, 1, 2] (init acb_heap 3 2 False False False) = Some s' \<and>
        returned s' = None \<and> threads (heap s' 2) = 2 \<and>
        TooManyThreads ''r'' 3 2 \<in> set (logged s')"
proof -
  let ?start = "init acb_heap 3 2 False False False"
  have h: "2 \<in> set [0::nat, 1, 2]" "needrun (heap ?start 2)" "maxcores ?start < threads (heap ?start 2)"
    "\<not> u_errors ?start"
    by (simp_all add: init_def acb_heap_def)
  have d: "dryrun ?start = False" "logged ?start = []" "maxcores ?start = 2"
    "rule (heap ?start 2) = ''r''" "threads (heap ?start 2) = 3" "returned ?start = None"
    by (simp_all add: init_def acb_heap_def)
  have g: "u_executor ?start \<noteq> CPUExecutor \<or>
            (0 \<le> maxcores ?start \<and> 0 \<le> u_cores ?start \<and>
             (\<forall>x\<in>set [0, 1, 2]. 0 \<le> threads (heap ?start x)))"
    by (simp add: init_def acb_heap_def)
  from oversized_job_clamped_and_kept[OF h] obtain candidates s1 where
    big: "collect [0, 1, 2] (?start\<lparr>u_open_jobs := False\<rparr>) [] = (candidates, s1) \<and>
      2 \<in> set candidates \<and> threads (heap s1 2) = maxcores ?start \<and>
      (if dryrun ?start then logged s1 = logged ?start
       else \<exists>ws. logged s1 = logged ?start @ ws \<and>
              TooManyThreads (rule (heap ?start 2)) (threads (heap ?start 2)) (maxcores ?start) \<in> set ws) \<and>
      schedule_step [0, 1, 2] ?start =
        map_option
          (\<lambda>sel. s1\<lparr>u_cores := u_cores s1 - (\<Sum>x\<in>#jobs_of sel. threads (heap s1 x)),
                     submitted := submitted s1 + jobs_of sel\<rparr>)
          (u_selector s1 candidates) \<and>
      (u_executor ?start \<noteq> CPUExecutor \<or>
            (0 \<le> maxcores ?start \<and> 0 \<le> u_cores ?start \<and>
             (\<forall>x\<in>set [0, 1, 2]. 0 \<le> threads (heap ?start x))) \<longrightarrow>
         (\<exists>sel s'. u_selector s1 candidates = Some sel \<and>
            schedule_step [0, 1, 2] ?start = Some s' \<and> returned s' = returned ?start \<and>
            heap s' = heap s1 \<and> logged s' = logged s1 \<and>
            submitted s' = submitted ?start + jobs_of sel))"
    by (elim exE) (rule that)
  from big have t: "threads (heap s1 2) = maxcores ?start"
    and w: "if dryrun ?start then logged s1 = logged ?start
       else \<exists>ws. logged s1 = logged ?start @ ws \<and>
              TooManyThreads (rule (heap ?start 2)) (threads (heap ?start 2)) (maxcores ?start) \<in> set ws"
    and e: "u_executor ?start \<noteq> CPUExecutor \<or>
            (0 \<le> maxcores ?start \<and> 0 \<le> u_cores ?start \<and>
             (\<forall>x\<in>set [0, 1, 2]. 0 \<le> threads (heap ?start x))) \<longrightarrow>
         (\<exists>sel s'. u_selector s1 candidates = Some sel \<and>
            schedule_step [0, 1, 2] ?start = Some s' \<and> returned s' = returned ?start \<and>
            heap s' = heap s1 \<and> logged s' = logged s1 \<and>
            submitted s' = submitted ?start + jobs_of sel)"
    by (rule conjunct2[THEN conjunct2, THEN conjunct1],
        rule conjunct2[THEN conjunct2, THEN conjunct2, THEN conjunct1],
        rule conjunct2[THEN conjunct2, THEN conjunct2, THEN conjunct2, THEN conjunct2])
  from e g obtain sel s' where s': "schedule_step [0, 1, 2] ?start = Some s'"
    "returned s' = returned ?start" "heap s' = heap s1" "logged s' = logged s1"
    by (elim impE exE conjE)
  from w have "\<exists>ws. logged s1 = [] @ ws \<and> TooManyThreads ''r'' 3 2 \<in> set ws"
    unfolding d by (simp only: if_False)
  then have l: "TooManyThreads ''r'' 3 2 \<in> set (logged s1)" by auto
  from t have t': "threads (heap s1 2) = 2" unfolding d .
  show ?thesis
    using s' l t' d(6) by (intro exI[of _ s']) simp
qed

text \<open>
  C6. When the error flag is unset and no ready job needs to run, the pass calls
  \<open>executor.shutdown\<close> once, dispatches nothing, and \<open>schedule\<close> returns \<open>True\<close>.
\<close>

theorem no_candidates_returns_true:
  assumes "\<not> u_errors s" and "\<forall>job\<in>set ready. \<not> needrun (heap s job)"
  shows "\<exists>s'. schedule_step ready s = Some s' \<and> returned s' = Some True \<and>
              shutdowns s' = shutdowns s + 1 \<and> submitted s' = submitted s \<and>
              u_cores s' = u_cores s \<and> logged s' = logged s"
proof -
  let ?s = "s\<lparr>u_open_jobs := False\<rparr>"
  have nr: "\<forall>job\<in>set ready. \<not> needrun (heap ?s job)" using assms(2) by simp
  have "fst (collect ready ?s []) = []"
    unfolding collect_fst using nr by simp
  moreover have "logged (snd (collect ready ?s [])) = logged ?s"
    using nr
  proof (induction ready)
    case Nil
    then show ?case by simp
  next
    case (Cons x ready)
    then show ?case by simp
  qed
  ultimately show ?thesis
    using assms(1) collect_fields(3,7,11)[of ready ?s "[]"]
    by (cases "collect ready ?s []") (simp add: schedule_step_def)
qed

theorem no_candidates_returns_true_witness:
  "\<exists>s'. schedule_step [0, 1] (init done_heap 2 4 False False False) = Some s' \<and>
        returned s' = Some True \<and> shutdowns s' = 1 \<and> submitted s' = {#}"
proof -
  let ?start = "init done_heap 2 4 False False False"
  have h: "\<not> u_errors ?start" "\<forall>job\<in>set [0, 1]. \<not> needrun (heap ?start job)"
    by (simp_all add: init_def done_heap_def)
  have d: "shutdowns ?start = 0" "submitted ?start = {#}" by (simp_all add: init_def)
  from no_candidates_returns_true[OF h] show ?thesis
    unfolding d by auto
qed

text \<open>
  C7. One call of the completion callback, when \<open>progress\<close> does not divide by an
  empty graph's size, adds one to \<open>finished_jobs\<close>, adds the job's thread requirement
  to the counter exactly when the job's \<open>needrun\<close> is set and leaves the counter alone
  otherwise, hands the job to \<open>dag.finish\<close> once, and sets the wake signal.
\<close>

theorem finished_effects:
  assumes "dryrun s \<or> 0 < dag_size s"
  shows "\<exists>s'. finished job s = Some s' \<and>
              finished_jobs s' = finished_jobs s + 1 \<and>
              u_cores s' = (if needrun (heap s job) then u_cores s + threads (heap s job)
                            else u_cores s) \<and>
              dag_finished s' = add_mset job (dag_finished s) \<and>
              ended s' = add_mset job (ended s) \<and>
              u_open_jobs s' \<and> heap s' = heap s \<and> submitted s' = submitted s"
proof -
  have "finished job s \<noteq> None"
    using assms by (cases "needrun (heap s job)") (auto simp: finished_def progress_def Let_def)
  then obtain s' where f: "finished job s = Some s'" by blast
  show ?thesis
    using f finished_fields[OF f] by simp
qed

theorem finished_effects_witness:
  "(\<exists>s'. finished 0 (init acb_heap 3 4 False False False) = Some s' \<and>
         finished_jobs s' = 1 \<and> u_cores s' = 6 \<and> dag_finished s' = {#0#} \<and> u_open_jobs s') \<and>
   (\<exists>s'. finished 0 (init done_heap 3 4 True False False) = Some s' \<and>
         finished_jobs s' = 1 \<and> u_cores s' = 4 \<and> dag_finished s' = {#0#} \<and> u_open_jobs s')"
proof -
  let ?a = "init acb_heap 3 4 False False False"
  let ?d = "init done_heap 3 4 True False False"
  have ha: "dryrun ?a \<or> 0 < dag_size ?a" and hd: "dryrun ?d \<or> 0 < dag_size ?d"
    by (simp_all add: init_def)
  have va: "finished_jobs ?a = 0" "u_cores ?a = 4" "dag_finished ?a = {#}"
    "needrun (heap ?a 0)" "threads (heap ?a 0) = 2"
    by (simp_all add: init_def acb_heap_def)
  have vd: "finished_jobs ?d = 0" "u_cores ?d = 4" "dag_finished ?d = {#}"
    "\<not> needrun (heap ?d 0)"
    by (simp_all add: init_def done_heap_def)
  from finished_effects[OF ha, of 0] have a: "\<exists>s'. finished 0 ?a = Some s' \<and>
         finished_jobs s' = 1 \<and> u_cores s' = 6 \<and> dag_finished s' = {#0#} \<and> u_open_jobs s'"
    using va by auto
  from finished_effects[OF hd, of 0] have d: "\<exists>s'. finished 0 ?d = Some s' \<and>
         finished_jobs s' = 1 \<and> u_cores s' = 4 \<and> dag_finished s' = {#0#} \<and> u_open_jobs s'"
    using vd by auto
  from a d show ?thesis by (rule conjI)
qed

section \<open>The budget\<close>

text \<open>
  Every step keeps the invariant, provided that it leaves at most one read of the
  counter open.
\<close>

lemma in_flight_cong:
  assumes "submitted s' = submitted s" "ended s' = ended s"
    and "\<And>job. job \<in># submitted s \<Longrightarrow> threads (heap s' job) = threads (heap s job)"
  shows "in_flight s' = in_flight s"
proof -
  have "image_mset (\<lambda>job. threads (heap s' job)) (submitted s - ended s)
        = image_mset (\<lambda>job. threads (heap s job)) (submitted s - ended s)"
    by (rule image_mset_cong) (use assms(3) in \<open>auto dest: in_diffD\<close>)
  then show ?thesis by (simp add: in_flight_def assms(1,2))
qed

lemma sum_mset_remove1:
  assumes "x \<in># M"
  shows "(\<Sum>y\<in>#M - {#x#}. f y) = (\<Sum>y\<in>#M. f y) - (f x :: int)"
proof -
  from assms obtain M' where "M = add_mset x M'" by (auto dest: multi_member_split)
  then show ?thesis by simp
qed

lemma add_mset_subseteq:
  assumes "x \<in># A - B" "B \<subseteq># A"
  shows "add_mset x B \<subseteq># A"
proof -
  from assms(1) obtain C where C: "A - B = add_mset x C" by (auto dest: multi_member_split)
  have "A = B + (A - B)" using assms(2) by simp
  then have "A = add_mset x B + C" using C by simp
  then show ?thesis by (metis mset_subset_eq_add_left)
qed

lemma sum_mset_int_nonneg: "(\<And>x. x \<in># M \<Longrightarrow> 0 \<le> f x) \<Longrightarrow> 0 \<le> (\<Sum>x\<in>#M. (f x :: int))"
  by (induction M) (simp_all add: add_nonneg_nonneg)

lemma sum_mset_nat_zero: "(\<Sum>a\<in>#M. (f a :: nat)) = 0 \<Longrightarrow> a \<in># M \<Longrightarrow> f a = 0"
  by (induction M) auto

lemma settled_cong:
  "heap s' = heap s \<Longrightarrow> maxcores s' = maxcores s \<Longrightarrow> settled s' job = settled s job"
  by (simp add: settled_def)

lemma fits_cong:
  "heap s' = heap s \<Longrightarrow> maxcores s' = maxcores s \<Longrightarrow> u_cores s' = u_cores s \<Longrightarrow>
   fits s' sel = fits s sel"
  by (simp add: fits_def settled_def)

lemma pc_inv_cong:
  "heap s' = heap s \<Longrightarrow> maxcores s' = maxcores s \<Longrightarrow> u_cores s' = u_cores s \<Longrightarrow>
   pc_inv s' p = pc_inv s p"
  by (cases p) (simp_all add: fits_def settled_def)

lemma act_inv_cong:
  "heap s' = heap s \<Longrightarrow> maxcores s' = maxcores s \<Longrightarrow> u_cores s' = u_cores s \<Longrightarrow>
   act_inv s' a = act_inv s a"
  by (cases a) (simp_all add: settled_def)

lemma budget_inv_frame:
  assumes inv: "budget_inv c"
    and same: "heap (sched c') = heap (sched c)" "maxcores (sched c') = maxcores (sched c)"
      "u_cores (sched c') = u_cores (sched c)" "u_executor (sched c') = u_executor (sched c)"
      "submitted (sched c') = submitted (sched c)" "ended (sched c') = ended (sched c)"
    and cb: "\<And>a. a \<in># callbacks c' \<Longrightarrow> act_inv (sched c) a"
      "(\<Sum>a\<in>#callbacks c'. owed (heap (sched c)) a) = (\<Sum>a\<in>#callbacks c. owed (heap (sched c)) a)"
    and p: "pc_inv (sched c) (pc c')" "pending (pc c') = pending (pc c)"
    and ex: "loads_open c' \<le> 1"
  shows "budget_inv c'"
proof -
  have fl: "in_flight (sched c') = in_flight (sched c)"
    by (rule in_flight_cong) (simp_all add: same)
  have d: "debt c' = debt c"
    by (simp add: debt_def fl same cb(2) p(2))
  have a: "act_inv (sched c') a" if "a \<in># callbacks c'" for a
    using cb(1)[OF that] act_inv_cong[OF same(1,2,3)] by simp
  have pcv: "pc_inv (sched c') (pc c')"
    using p(1) pc_inv_cong[OF same(1,2,3)] by simp
  have st: "settled (sched c') job = settled (sched c) job" for job
    by (rule settled_cong) (simp_all add: same)
  show ?thesis
    using inv a pcv ex unfolding budget_inv_def
    by (simp add: same d st)
qed

lemma budget_inv_Wake:
  assumes "budget_inv c" "fire Wake c = Some c'"
  shows "budget_inv c'"
proof -
  from assms(2) have c': "c' = c\<lparr>pc := Woken\<rparr>" and p: "pc c = Waiting"
    by (auto split: if_splits)
  show ?thesis
    using assms(1)
    by (rule budget_inv_frame) (use assms(1) p in \<open>auto simp: c' budget_inv_def loads_open_def\<close>)
qed

lemma budget_inv_Clear:
  assumes "budget_inv c" "fire Clear c = Some c'"
  shows "budget_inv c'"
proof -
  from assms(2) have c': "c' = c\<lparr>sched := (sched c)\<lparr>u_open_jobs := False\<rparr>, pc := Cleared\<rparr>"
    and p: "pc c = Woken"
    by (auto split: if_splits)
  show ?thesis
    using assms(1)
    by (rule budget_inv_frame) (use assms(1) p in \<open>auto simp: c' budget_inv_def loads_open_def\<close>)
qed

lemma budget_inv_Test:
  assumes "budget_inv c" "fire (Test ready) c = Some c'"
  shows "budget_inv c'"
proof -
  from assms(2) have p: "pc c = Cleared" by (auto split: if_splits)
  from assms(2) p have c': "pc c' = Done \<or> pc c' = Collecting ready []"
    "heap (sched c') = heap (sched c)" "maxcores (sched c') = maxcores (sched c)"
    "u_cores (sched c') = u_cores (sched c)" "u_executor (sched c') = u_executor (sched c)"
    "submitted (sched c') = submitted (sched c)" "ended (sched c') = ended (sched c)"
    "callbacks c' = callbacks c"
    by (auto split: if_splits)
  show ?thesis
    using assms(1)
    by (rule budget_inv_frame) (use assms(1) p c' in \<open>auto simp: budget_inv_def loads_open_def\<close>)
qed

lemma next_jobs_empty: "next_jobs sel = {} \<Longrightarrow> jobs_of sel = {#}"
  by (cases sel rule: next_jobs.cases) auto

lemma next_jobs_member:
  "finite_selection sel \<Longrightarrow> job \<in> next_jobs sel \<Longrightarrow> job \<in># jobs_of sel"
  by (cases sel rule: next_jobs.cases) auto

lemma jobs_of_without:
  "finite_selection sel \<Longrightarrow> job \<in> next_jobs sel \<Longrightarrow>
   jobs_of (without job sel) = jobs_of sel - {#job#}"
  by (cases sel rule: next_jobs.cases) (auto simp: mset_set_Diff)

lemma finite_without: "finite_selection sel \<Longrightarrow> finite_selection (without job sel)"
  by (cases sel) auto

lemma budget_inv_Loop:
  assumes "budget_inv c" "fire Loop c = Some c'"
  shows "budget_inv c'"
proof -
  from assms(2) obtain sel where p: "pc c = Dispatching sel" and e: "next_jobs sel = {}"
    and c': "c' = c\<lparr>pc := Waiting\<rparr>"
    by (auto split: pc.splits if_splits)
  show ?thesis
    using assms(1)
    by (rule budget_inv_frame)
      (use assms(1) p next_jobs_empty[OF e] in \<open>auto simp: c' budget_inv_def loads_open_def\<close>)
qed

lemma budget_inv_Call_error:
  assumes "budget_inv c" "fire Call_error c = Some c'"
  shows "budget_inv c'"
proof -
  from assms(2) have c': "c' = c\<lparr>callbacks := add_mset Error_flag (callbacks c)\<rparr>"
    by auto
  show ?thesis
    using assms(1)
    by (rule budget_inv_frame) (use assms(1) in \<open>auto simp: c' budget_inv_def loads_open_def\<close>)
qed

lemma settled_update:
  "settled (s\<lparr>u_cores := v\<rparr>) = settled s"
  "settled (s\<lparr>submitted := m\<rparr>) = settled s"
  "settled (s\<lparr>ended := m\<rparr>) = settled s"
  by (simp_all add: settled_def fun_eq_iff)

lemma collect_single:
  "collect [job] s acc = (if needrun (heap s job) then acc @ [job] else acc, visit job s)"
  by (simp add: collect_Cons del: collect.simps(2))

lemma settled_visit:
  assumes "settled s x"
  shows "heap (visit job s) x = heap s x" and "settled (visit job s) x"
proof -
  show h: "heap (visit job s) x = heap s x"
    using assms by (auto simp: visit_heap oversized_def settled_def)
  show "settled (visit job s) x"
    using assms h by (simp add: settled_def visit_fields)
qed

lemma settled_visited:
  "needrun (heap s job) \<Longrightarrow> settled (visit job s) job"
  by (auto simp: settled_def visit_heap visit_fields oversized_def)

lemma act_inv_settled_heap:
  assumes "act_inv s a" and "\<And>x. settled s x \<Longrightarrow> h x = heap s x"
  shows "owed h a = owed (heap s) a"
  using assms by (cases a) simp_all

lemma act_inv_unloaded:
  assumes "loaded a = 0" "heap s' = heap s" "maxcores s' = maxcores s"
  shows "act_inv s' a = act_inv s a"
  using assms by (cases a) (simp_all add: settled_def)

lemma no_loads_while_deducting:
  assumes "loads_open c \<le> 1" "pc c = Deducting sel old" "a \<in># callbacks c"
  shows "loaded a = 0"
proof -
  from assms(1,2) have "(\<Sum>a\<in>#callbacks c. loaded a) = 0" by (simp add: loads_open_def)
  then show ?thesis using assms(3) by (rule sum_mset_nat_zero)
qed

lemma budget_inv_Visit:
  assumes inv: "budget_inv c" and f: "fire Visit c = Some c'"
  shows "budget_inv c'"
proof -
  let ?s = "sched c"
  from f obtain job ready acc where p: "pc c = Collecting (job # ready) acc"
    by (auto split: pc.splits list.splits)
  let ?acc = "if needrun (heap ?s job) then acc @ [job] else acc"
  from f p have c': "c' = c\<lparr>sched := visit job ?s, pc := Collecting ready ?acc\<rparr>"
    by (simp add: collect_single del: collect.simps)
  from inv have i: "u_executor ?s = CPUExecutor" "0 \<le> maxcores ?s"
    "\<And>x. 0 \<le> threads (heap ?s x)" "ended ?s \<subseteq># submitted ?s"
    "\<And>x. x \<in># submitted ?s \<Longrightarrow> settled ?s x"
    "\<And>a. a \<in># callbacks c \<Longrightarrow> act_inv ?s a"
    "pc_inv ?s (pc c)" "loads_open c \<le> 1" "0 \<le> u_cores ?s"
    "u_cores ?s + debt c = maxcores ?s"
    by (auto simp: budget_inv_def)
  let ?s' = "visit job ?s"
  have nn: "0 \<le> threads (heap ?s' x)" for x
    using i(2,3) by (simp add: visit_heap)
  have sub: "settled ?s' x" if "x \<in># submitted ?s" for x
    using i(5)[OF that] by (rule settled_visit)
  have fl: "in_flight ?s' = in_flight ?s"
    by (rule in_flight_cong) (simp_all add: visit_fields settled_visit(1)[OF i(5)])
  have "image_mset (owed (heap ?s')) (callbacks c) = image_mset (owed (heap ?s)) (callbacks c)"
    by (rule image_mset_cong) (rule act_inv_settled_heap[OF i(6)], simp_all add: settled_visit)
  then have ow: "(\<Sum>a\<in>#callbacks c. owed (heap ?s') a) = (\<Sum>a\<in>#callbacks c. owed (heap ?s) a)"
    by simp
  have d: "debt c' = debt c"
    by (simp add: debt_def c' fl ow p)
  have a: "act_inv ?s' a" if "a \<in># callbacks c" for a
    using i(6)[OF that] by (cases a) (simp_all add: settled_visit visit_fields)
  have acc: "settled ?s' x" if "x \<in> set ?acc" for x
  proof (cases "x \<in> set acc")
    case True
    then have "settled ?s x" using i(7) p by simp
    then show ?thesis by (rule settled_visit)
  next
    case False
    with that have "x = job" "needrun (heap ?s job)" by (auto split: if_splits)
    then show ?thesis by (simp add: settled_visited)
  qed
  have lo: "loads_open c' = loads_open c" by (simp add: loads_open_def c' p)
  show ?thesis
    unfolding budget_inv_def
    using i(1,2,4,8,9,10) nn sub a acc d lo
    by (simp add: c' visit_fields)
qed

lemma cpu_selection:
  assumes "u_executor s = CPUExecutor" "\<And>x. 0 \<le> threads (heap s x)" "0 \<le> u_cores s"
  obtains S where "u_selector s jobs = Some (Unordered S)" "S \<subseteq> set jobs" "finite S"
    "(\<Sum>job\<in>S. threads (heap s job)) \<le> u_cores s"
proof -
  let ?thr = "\<lambda>job. threads (heap s job)"
  let ?S = "spec_walk ?thr jobs (length jobs) (u_cores s)"
  have nn: "\<forall>job\<in>set jobs. 0 \<le> ?thr job" using assms(2) by simp
  have "u_selector s jobs = Some (Unordered ?S)"
    using selector_refines_walk[OF nn assms(3)] assms(1) by (simp add: u_selector_def)
  moreover have sub: "?S \<subseteq> set jobs"
    using spec_walk_subset[of "length jobs" jobs ?thr "u_cores s"] by simp
  moreover have "finite ?S" using sub by (rule finite_subset) simp
  moreover have "sum ?thr ?S \<le> u_cores s"
    using spec_walk_sum_le[OF nn, of "length jobs" "u_cores s"]
      spec_cell_le[OF nn _ assms(3), of "length jobs"] by simp
  ultimately show ?thesis by (rule that)
qed

lemma budget_inv_Select:
  assumes inv: "budget_inv c" and f: "fire Select c = Some c'"
  shows "budget_inv c'"
proof -
  let ?s = "sched c"
  from f obtain acc where p: "pc c = Collecting [] acc"
    by (auto split: pc.splits list.splits)
  from inv have i: "u_executor ?s = CPUExecutor" "\<And>x. 0 \<le> threads (heap ?s x)"
    "0 \<le> u_cores ?s" "pc_inv ?s (pc c)" "loads_open c \<le> 1"
    "\<And>a. a \<in># callbacks c \<Longrightarrow> act_inv ?s a"
    by (auto simp: budget_inv_def)
  show ?thesis
  proof (cases "acc = []")
    case True
    with f p have c': "c' = c\<lparr>sched := ?s\<lparr>shutdowns := shutdowns ?s + 1, returned := Some True\<rparr>,
        pc := Done\<rparr>"
      by simp
    show ?thesis
      using inv
      by (rule budget_inv_frame) (use i p in \<open>auto simp: c' loads_open_def\<close>)
  next
    case False
    from cpu_selection[OF i(1,2,3), of acc] obtain S where
      S: "u_selector ?s acc = Some (Unordered S)" "S \<subseteq> set acc" "finite S"
        "(\<Sum>job\<in>S. threads (heap ?s job)) \<le> u_cores ?s"
      by blast
    from f p False S(1) have c': "c' = c\<lparr>pc := Selected (Unordered S)\<rparr>" by simp
    have "fits ?s (Unordered S)"
      using S(2,3,4) i(4) p by (auto simp: fits_def sum_unfold_sum_mset)
    then show ?thesis
      using inv
      by (intro budget_inv_frame[OF inv]) (use i p in \<open>auto simp: c' loads_open_def\<close>)
  qed
qed

lemma budget_inv_Load:
  assumes inv: "budget_inv c" and f: "fire Load c = Some c'" and ex: "loads_open c' \<le> 1"
  shows "budget_inv c'"
proof -
  from f obtain sel where p: "pc c = Selected sel" by (auto split: pc.splits)
  from f p have c': "c' = c\<lparr>pc := Deducting sel (u_cores (sched c))\<rparr>" by simp
  show ?thesis
    using inv
    by (rule budget_inv_frame) (use inv p ex in \<open>auto simp: c' budget_inv_def\<close>)
qed

lemma budget_inv_Store:
  assumes inv: "budget_inv c" and f: "fire Store c = Some c'" and ex: "loads_open c' \<le> 1"
  shows "budget_inv c'"
proof -
  let ?s = "sched c"
  from f obtain sel old where p: "pc c = Deducting sel old" by (auto split: pc.splits)
  let ?total = "\<Sum>job\<in>#jobs_of sel. threads (heap ?s job)"
  let ?s' = "?s\<lparr>u_cores := old - ?total\<rparr>"
  from f p have c': "c' = c\<lparr>sched := ?s', pc := Dispatching sel\<rparr>" by simp
  from inv have i: "u_executor ?s = CPUExecutor" "0 \<le> maxcores ?s"
    "\<And>x. 0 \<le> threads (heap ?s x)" "ended ?s \<subseteq># submitted ?s"
    "\<And>x. x \<in># submitted ?s \<Longrightarrow> settled ?s x"
    "\<And>a. a \<in># callbacks c \<Longrightarrow> act_inv ?s a"
    "pc_inv ?s (pc c)" "loads_open c \<le> 1" "0 \<le> u_cores ?s"
    "u_cores ?s + debt c = maxcores ?s"
    by (auto simp: budget_inv_def)
  from i(7) p have old: "old = u_cores ?s" and fit: "fits ?s sel" by simp_all
  have a: "act_inv ?s' a" if "a \<in># callbacks c" for a
    using i(6)[OF that] act_inv_unloaded[OF no_loads_while_deducting[OF i(8) p that], of ?s' ?s]
    by simp
  have fl: "in_flight ?s' = in_flight ?s" by (rule in_flight_cong) simp_all
  have d: "debt c' = debt c + ?total"
    by (simp add: debt_def c' fl p)
  show ?thesis
    unfolding budget_inv_def
    using i(1,2,3,4,5,10) a fit old d ex
    by (simp add: c' settled_update fits_def)
qed

lemma budget_inv_Dispatch:
  assumes inv: "budget_inv c" and f: "fire (Dispatch job) c = Some c'"
  shows "budget_inv c'"
proof -
  let ?s = "sched c"
  from f obtain sel where p: "pc c = Dispatching sel" by (auto split: pc.splits)
  from f p have nx: "job \<in> next_jobs sel" by (auto split: if_splits)
  let ?P = "jobs_of sel"
  from inv p have fin: "finite_selection sel" by (simp add: budget_inv_def)
  have mem: "job \<in># ?P" using fin nx by (rule next_jobs_member)
  have wo: "jobs_of (without job sel) = ?P - {#job#}" using fin nx by (rule jobs_of_without)
  let ?s' = "?s\<lparr>submitted := add_mset job (submitted ?s)\<rparr>"
  from f p nx have c': "c' = c\<lparr>sched := ?s', pc := Dispatching (without job sel)\<rparr>" by simp
  from inv have i: "u_executor ?s = CPUExecutor" "0 \<le> maxcores ?s"
    "\<And>x. 0 \<le> threads (heap ?s x)" "ended ?s \<subseteq># submitted ?s"
    "\<And>x. x \<in># submitted ?s \<Longrightarrow> settled ?s x"
    "\<And>a. a \<in># callbacks c \<Longrightarrow> act_inv ?s a"
    "pc_inv ?s (pc c)" "loads_open c \<le> 1" "0 \<le> u_cores ?s"
    "u_cores ?s + debt c = maxcores ?s"
    by (auto simp: budget_inv_def)
  have "add_mset job (submitted ?s) - ended ?s = add_mset job (submitted ?s - ended ?s)"
    using i(4) by (intro multiset_eqI) (simp add: Suc_diff_le mset_subset_eq_count)
  then have fl: "in_flight ?s' = in_flight ?s + threads (heap ?s job)"
    by (simp add: in_flight_def)
  have pe: "(\<Sum>x\<in>#?P - {#job#}. threads (heap ?s x)) = (\<Sum>x\<in>#?P. threads (heap ?s x)) - threads (heap ?s job)"
    using mem by (rule sum_mset_remove1)
  have d: "debt c' = debt c"
    by (simp add: debt_def c' p fl pe wo)
  have a: "act_inv ?s' a = act_inv ?s a" for a by (rule act_inv_cong) simp_all
  have jb: "settled ?s job" using i(7) p mem by simp
  have rest: "settled ?s x" if "x \<in># jobs_of (without job sel)" for x
    using i(7) p that unfolding wo by (auto dest: in_diffD)
  have en: "ended ?s \<subseteq># add_mset job (submitted ?s)"
    using i(4) by (intro mset_subset_eqI) (simp add: le_SucI mset_subset_eq_count)
  have lo: "loads_open c' = loads_open c" by (simp add: loads_open_def c' p)
  show ?thesis
    unfolding budget_inv_def
    using i(1,2,3,5,6,8,9,10) d jb rest en lo finite_without[OF fin, of job]
    by (auto simp: c' settled_update a)
qed

lemma budget_inv_Call_finished:
  assumes inv: "budget_inv c" and f: "fire (Call_finished job) c = Some c'"
  shows "budget_inv c'"
proof -
  let ?s = "sched c"
  from f have mem: "job \<in># submitted ?s - ended ?s" by (auto split: if_splits)
  let ?s' = "?s\<lparr>ended := add_mset job (ended ?s)\<rparr>"
  from f mem have c': "c' = c\<lparr>sched := ?s', callbacks := add_mset (Finished_test job) (callbacks c)\<rparr>"
    by simp
  from inv have i: "u_executor ?s = CPUExecutor" "0 \<le> maxcores ?s"
    "\<And>x. 0 \<le> threads (heap ?s x)" "ended ?s \<subseteq># submitted ?s"
    "\<And>x. x \<in># submitted ?s \<Longrightarrow> settled ?s x"
    "\<And>a. a \<in># callbacks c \<Longrightarrow> act_inv ?s a"
    "pc_inv ?s (pc c)" "loads_open c \<le> 1" "0 \<le> u_cores ?s"
    "u_cores ?s + debt c = maxcores ?s"
    by (auto simp: budget_inv_def)
  have "submitted ?s - add_mset job (ended ?s) = (submitted ?s - ended ?s) - {#job#}"
    by simp
  then have fl: "in_flight ?s' = in_flight ?s - threads (heap ?s job)"
    using sum_mset_remove1[OF mem, of "\<lambda>x. threads (heap ?s x)"] by (simp add: in_flight_def)
  have d: "debt c' = debt c" by (simp add: debt_def c' fl)
  have jb: "settled ?s job" using mem by (intro i(5)) (rule in_diffD)
  have a: "act_inv ?s' a = act_inv ?s a" for a by (rule act_inv_cong) simp_all
  have p: "pc_inv ?s' (pc c) = pc_inv ?s (pc c)" by (rule pc_inv_cong) simp_all
  have en: "add_mset job (ended ?s) \<subseteq># submitted ?s"
    using mem i(4) by (rule add_mset_subseteq)
  have lo: "loads_open c' = loads_open c" by (simp add: loads_open_def c')
  show ?thesis
    unfolding budget_inv_def
    using i d jb en lo
    by (auto simp: c' settled_update a p)
qed

lemma progress_fields:
  assumes "progress s = Some s'"
  shows "heap s' = heap s" "maxcores s' = maxcores s" "u_cores s' = u_cores s"
    "u_executor s' = u_executor s" "submitted s' = submitted s" "ended s' = ended s"
    "u_errors s' = u_errors s" "returned s' = returned s" "shutdowns s' = shutdowns s"
    "u_open_jobs s' = u_open_jobs s" "finished_jobs s' = finished_jobs s"
    "dag_finished s' = dag_finished s"
  using assms by (auto simp: progress_def split: if_splits)

lemma advance_fields:
  assumes "loaded a = 0"
  shows "heap (fst (advance a s)) = heap s" "maxcores (fst (advance a s)) = maxcores s"
    "u_cores (fst (advance a s)) = u_cores s" "u_executor (fst (advance a s)) = u_executor s"
    "submitted (fst (advance a s)) = submitted s" "ended (fst (advance a s)) = ended s"
  using assms by (cases a; auto simp: progress_fields split: option.splits)+

lemma advance_keeps:
  shows "heap (fst (advance a s)) = heap s" "maxcores (fst (advance a s)) = maxcores s"
    "u_executor (fst (advance a s)) = u_executor s"
    "submitted (fst (advance a s)) = submitted s" "ended (fst (advance a s)) = ended s"
    "returned (fst (advance a s)) = returned s" "shutdowns (fst (advance a s)) = shutdowns s"
  by (cases a; auto simp: progress_fields split: option.splits)+

lemma fire_Advance:
  assumes "fire (Advance a) c = Some c'"
  obtains C where "callbacks c = add_mset a C"
    "c' = c\<lparr>sched := fst (advance a (sched c)),
             callbacks := (case snd (advance a (sched c)) of None \<Rightarrow> C | Some a' \<Rightarrow> add_mset a' C)\<rparr>"
proof -
  from assms have mem: "a \<in># callbacks c" by (auto split: if_splits)
  then obtain C where C: "callbacks c = add_mset a C" by (auto dest: multi_member_split)
  then have D: "callbacks c - {#a#} = C" by simp
  have "c' = c\<lparr>sched := fst (advance a (sched c)),
             callbacks := (case snd (advance a (sched c)) of None \<Rightarrow> C | Some a' \<Rightarrow> add_mset a' C)\<rparr>"
    using assms mem D by (auto split: prod.splits)
  with C show ?thesis by (rule that)
qed

lemma budget_inv_Advance_loaded:
  assumes inv: "budget_inv c" and f: "fire (Advance (Finished_loaded job old)) c = Some c'"
    and ex: "loads_open c' \<le> 1"
  shows "budget_inv c'"
proof -
  let ?s = "sched c"
  let ?a = "Finished_loaded job old"
  let ?s' = "?s\<lparr>u_cores := old + threads (heap ?s job)\<rparr>"
  from f obtain C where C: "callbacks c = add_mset ?a C"
    and c': "c' = c\<lparr>sched := ?s', callbacks := add_mset (Finished_counting job) C\<rparr>"
    by (rule fire_Advance) simp
  from inv have i: "u_executor ?s = CPUExecutor" "0 \<le> maxcores ?s"
    "\<And>x. 0 \<le> threads (heap ?s x)" "ended ?s \<subseteq># submitted ?s"
    "\<And>x. x \<in># submitted ?s \<Longrightarrow> settled ?s x"
    "\<And>a. a \<in># callbacks c \<Longrightarrow> act_inv ?s a"
    "pc_inv ?s (pc c)" "loads_open c \<le> 1" "0 \<le> u_cores ?s"
    "u_cores ?s + debt c = maxcores ?s"
    by (auto simp: budget_inv_def)
  from i(6)[of ?a] C have old: "old = u_cores ?s" by simp
  from i(8) C have nd: "\<And>sel v. pc c \<noteq> Deducting sel v" and rest: "(\<Sum>a\<in>#C. loaded a) = 0"
    by (auto simp: loads_open_def split: pc.splits)
  have a: "act_inv ?s' a" if "a \<in># C" for a
  proof -
    have "loaded a = 0" using rest that by (rule sum_mset_nat_zero)
    then have "act_inv ?s' a = act_inv ?s a" by (rule act_inv_unloaded) simp_all
    then show ?thesis using i(6)[of a] that C by simp
  qed
  have p: "pc_inv ?s' (pc c)"
    using i(7) nd i(3)[of job] old by (cases "pc c") (auto simp: fits_def settled_update)
  have fl: "in_flight ?s' = in_flight ?s" by (rule in_flight_cong) simp_all
  have d: "debt c' = debt c - threads (heap ?s job)"
    by (simp add: debt_def c' C fl)
  show ?thesis
    unfolding budget_inv_def
    using i(1,2,3,4,5,9,10) i(3)[of job] a p d ex old
    by (auto simp: c' settled_update)
qed

lemma budget_inv_Advance_test:
  assumes inv: "budget_inv c" and f: "fire (Advance (Finished_test job)) c = Some c'"
    and ex: "loads_open c' \<le> 1"
  shows "budget_inv c'"
proof -
  let ?s = "sched c"
  let ?a = "Finished_test job"
  from inv have i: "\<And>a. a \<in># callbacks c \<Longrightarrow> act_inv ?s a" "pc_inv ?s (pc c)"
    by (auto simp: budget_inv_def)
  from f have mem: "?a \<in># callbacks c" by (auto split: if_splits)
  from i(1)[OF mem] have st: "settled ?s job" by simp
  then have nr: "needrun (heap ?s job)" by (simp add: settled_def)
  from f obtain C where C: "callbacks c = add_mset ?a C"
    and c': "c' = c\<lparr>sched := ?s, callbacks := add_mset (Finished_loaded job (u_cores ?s)) C\<rparr>"
    by (rule fire_Advance) (simp add: nr)
  show ?thesis
    using inv
    by (rule budget_inv_frame) (use i st ex C in \<open>auto simp: c'\<close>)
qed

lemma budget_inv_Advance_other:
  assumes inv: "budget_inv c" and f: "fire (Advance a) c = Some c'"
    and ex: "loads_open c' \<le> 1" and a: "owed (heap (sched c)) a = 0" "loaded a = 0"
    and nt: "\<And>job. a \<noteq> Finished_test job"
  shows "budget_inv c'"
proof -
  let ?s = "sched c"
  from inv have i: "\<And>a. a \<in># callbacks c \<Longrightarrow> act_inv ?s a" "pc_inv ?s (pc c)"
    by (auto simp: budget_inv_def)
  from f obtain C where C: "callbacks c = add_mset a C"
    and c': "c' = c\<lparr>sched := fst (advance a ?s),
             callbacks := (case snd (advance a ?s) of None \<Rightarrow> C | Some a' \<Rightarrow> add_mset a' C)\<rparr>"
    by (rule fire_Advance)
  have nxt: "owed (heap ?s) a' = 0 \<and> act_inv ?s a'" if "snd (advance a ?s) = Some a'" for a'
    using that a(2) nt by (cases a) (auto split: option.splits if_splits)
  show ?thesis
    using inv
  proof (rule budget_inv_frame)
    show "heap (sched c') = heap ?s" "maxcores (sched c') = maxcores ?s"
      "u_cores (sched c') = u_cores ?s" "u_executor (sched c') = u_executor ?s"
      "submitted (sched c') = submitted ?s" "ended (sched c') = ended ?s"
      by (simp_all add: c' advance_fields[OF a(2)])
    show "act_inv ?s x" if "x \<in># callbacks c'" for x
      using that i(1)[of x] C nxt by (auto simp: c' split: option.splits)
    show "(\<Sum>a\<in>#callbacks c'. owed (heap ?s) a) = (\<Sum>a\<in>#callbacks c. owed (heap ?s) a)"
      using a(1) nxt by (auto simp: c' C split: option.splits)
    show "pc_inv ?s (pc c')" using i(2) by (simp add: c')
    show "pending (pc c') = pending (pc c)" by (simp add: c')
    show "loads_open c' \<le> 1" by (rule ex)
  qed
qed

lemma budget_inv_Advance:
  assumes inv: "budget_inv c" and f: "fire (Advance a) c = Some c'" and ex: "loads_open c' \<le> 1"
  shows "budget_inv c'"
proof (cases a)
  case (Finished_test job)
  then show ?thesis using inv f ex by (auto intro: budget_inv_Advance_test)
next
  case (Finished_loaded job old)
  then show ?thesis using inv f ex by (auto intro: budget_inv_Advance_loaded)
qed (use inv f ex in \<open>auto intro!: budget_inv_Advance_other[OF inv f ex]\<close>)

lemma budget_inv_fire:
  assumes "budget_inv c" "fire a c = Some c'" "loads_open c' \<le> 1"
  shows "budget_inv c'"
proof (cases a)
  case Wake then show ?thesis using assms by (auto intro: budget_inv_Wake)
next
  case Clear then show ?thesis using assms by (auto intro: budget_inv_Clear)
next
  case (Test ready) then show ?thesis using assms by (auto intro: budget_inv_Test)
next
  case Visit then show ?thesis using assms by (auto intro: budget_inv_Visit)
next
  case Select then show ?thesis using assms by (auto intro: budget_inv_Select)
next
  case Load then show ?thesis using assms by (auto intro: budget_inv_Load)
next
  case Store then show ?thesis using assms by (auto intro: budget_inv_Store)
next
  case (Dispatch job) then show ?thesis using assms by (auto intro: budget_inv_Dispatch)
next
  case Loop then show ?thesis using assms by (auto intro: budget_inv_Loop)
next
  case (Call_finished job) then show ?thesis using assms by (auto intro: budget_inv_Call_finished)
next
  case Call_error then show ?thesis using assms by (auto intro: budget_inv_Call_error)
next
  case (Advance x) then show ?thesis using assms by (auto intro: budget_inv_Advance)
qed

lemma execute_reaches: "execute as c = Some c' \<Longrightarrow> step\<^sup>*\<^sup>* c c'"
proof (induction as arbitrary: c)
  case Nil
  then show ?case by simp
next
  case (Cons a as)
  then obtain d where d: "fire a c = Some d" "execute as d = Some c'"
    by (auto split: option.splits)
  have "step c d" using d(1) by (auto simp: step_def)
  moreover have "step\<^sup>*\<^sup>* d c'" using d(2) by (rule Cons.IH)
  ultimately show ?case by (rule converse_rtranclp_into_rtranclp)
qed

lemma execute_exclusive_reaches: "execute_exclusive as c = Some c' \<Longrightarrow> exclusive_step\<^sup>*\<^sup>* c c'"
proof (induction as arbitrary: c)
  case Nil
  then show ?case by simp
next
  case (Cons a as)
  then obtain d where d: "fire a c = Some d" "loads_open d \<le> 1" "execute_exclusive as d = Some c'"
    by (auto split: option.splits if_splits)
  have "exclusive_step c d" using d(1,2) by (auto simp: exclusive_step_def step_def)
  moreover have "exclusive_step\<^sup>*\<^sup>* d c'" using d(3) by (rule Cons.IH)
  ultimately show ?case by (rule converse_rtranclp_into_rtranclp)
qed

lemma budget_inv_start:
  assumes "0 \<le> cores_arg" "\<forall>job. 0 \<le> threads (h job)"
  shows "budget_inv (start (init h n cores_arg False False False))"
  using assms
  by (simp add: budget_inv_def start_def init_def debt_def in_flight_def loads_open_def)

lemma budget_inv_reachable:
  assumes "exclusive_step\<^sup>*\<^sup>* c c'" "budget_inv c"
  shows "budget_inv c'"
  using assms
proof (induction rule: rtranclp_induct)
  case base
  then show ?case by simp
next
  case (step y z)
  from step(2) obtain a where "fire a y = Some z" "loads_open z \<le> 1"
    by (auto simp: exclusive_step_def step_def)
  with step(3)[OF step(4)] show ?case by (rule budget_inv_fire)
qed

lemma fire_maxcores: "fire a c = Some c' \<Longrightarrow> maxcores (sched c') = maxcores (sched c)"
proof (cases a)
  case Visit
  assume "fire a c = Some c'"
  with Visit show ?thesis
    by (auto simp: collect_single visit_fields simp del: collect.simps split: pc.splits list.splits)
next
  case (Advance x)
  assume "fire a c = Some c'"
  with Advance show ?thesis
    by (auto simp: advance_keeps split: if_splits prod.splits dest!: arg_cong[where f=fst])
qed (auto split: if_splits pc.splits list.splits option.splits)

lemma reachable_maxcores: "exclusive_step\<^sup>*\<^sup>* c c' \<Longrightarrow> maxcores (sched c') = maxcores (sched c)"
  by (induction rule: rtranclp_induct) (auto simp: exclusive_step_def step_def fire_maxcores)

lemma debt_nonneg:
  assumes "budget_inv c"
  shows "0 \<le> in_flight (sched c)" and "in_flight (sched c) \<le> debt c"
proof -
  from assms have nn: "\<And>x. 0 \<le> threads (heap (sched c) x)" by (simp add: budget_inv_def)
  show "0 \<le> in_flight (sched c)"
    unfolding in_flight_def by (rule sum_mset_int_nonneg) (rule nn)
  have "0 \<le> owed (heap (sched c)) a" for a using nn by (cases a) simp_all
  then have "0 \<le> (\<Sum>a\<in>#callbacks c. owed (heap (sched c)) a)"
    by (intro sum_mset_int_nonneg)
  moreover have "0 \<le> (\<Sum>job\<in>#pending (pc c). threads (heap (sched c) job))"
    by (rule sum_mset_int_nonneg) (rule nn)
  ultimately show "in_flight (sched c) \<le> debt c" by (simp add: debt_def)
qed

text \<open>
  C2, as stated, fails, and in two ways. Outside the CPU executor the selector counts
  jobs while the counter is decremented by threads: in cluster mode with two cores and
  the jobs A and C of two threads each ready, the pass selects both and writes \<open>-2\<close>
  to the counter. With the CPU executor, lines 63 and 71 each read the counter and
  write it later, in two threads and without a lock: with four cores, the decrement of
  a pass is lost when a completion reads the counter before the pass writes it and
  writes after it, and the counter then reaches 6.
\<close>

theorem budget_counterexample:
  "execute_exclusive overdraw (start (init acb_heap 3 2 False False True)) \<noteq> None \<and>
   u_cores (sched (the (execute_exclusive overdraw (start (init acb_heap 3 2 False False True))))) = - 2 \<and>
   maxcores (sched (the (execute_exclusive overdraw (start (init acb_heap 3 2 False False True))))) = 2 \<and>
   execute lost_update (start (init acb_heap 4 4 False False False)) \<noteq> None \<and>
   u_cores (sched (the (execute lost_update (start (init acb_heap 4 4 False False False))))) = 6 \<and>
   maxcores (sched (the (execute lost_update (start (init acb_heap 4 4 False False False))))) = 4"
  by code_simp

text \<open>
  C2, amended. With the CPU executor, \<open>maxcores\<close> and thread requirements that are not
  negative, in every state of an execution in which at most one read of the counter is
  open at a time, whatever else the threads interleave: \<open>maxcores\<close> is the constructor's
  argument; the counter lies between 0 and \<open>maxcores\<close>; the thread requirements of the
  jobs dispatched and not yet reported complete sum to at most \<open>maxcores\<close>, also
  together with the counter; the counter, these requirements, those of the completions
  whose increment is still to come and those of the selected jobs still to hand over sum
  to \<open>maxcores\<close> exactly, so that counter and jobs in flight sum to \<open>maxcores\<close> when
  the loop waits and no callback is in progress; a read of the counter that is open has
  read its present value, and the selection to deduct fits it. In every mode and every
  state, a pass that runs alone decrements the counter by the total requirement of the
  jobs it dispatches, and a completion callback that runs alone increments it by the
  requirement of its job when the job needed to run, and leaves it otherwise.
\<close>

theorem local_budget_invariant:
  assumes "0 \<le> cores_arg" and "\<forall>job. 0 \<le> threads (h job)"
    and "exclusive_step\<^sup>*\<^sup>* (start (init h n cores_arg False False False)) c"
  shows "maxcores (sched c) = cores_arg \<and>
         0 \<le> u_cores (sched c) \<and> u_cores (sched c) \<le> maxcores (sched c) \<and>
         in_flight (sched c) \<le> maxcores (sched c) \<and>
         u_cores (sched c) + in_flight (sched c) \<le> maxcores (sched c) \<and>
         u_cores (sched c) + debt c = maxcores (sched c) \<and>
         (pc c = Waiting \<and> callbacks c = {#} \<longrightarrow>
            u_cores (sched c) + in_flight (sched c) = maxcores (sched c)) \<and>
         (\<forall>run old. pc c = Deducting run old \<longrightarrow>
            old = u_cores (sched c) \<and>
            (\<Sum>job\<in>#jobs_of run. threads (heap (sched c) job)) \<le> u_cores (sched c)) \<and>
         (\<forall>job old. Finished_loaded job old \<in># callbacks c \<longrightarrow>
            old = u_cores (sched c) \<and> needrun (heap (sched c) job)) \<and>
         (\<forall>ready t t'. schedule_step ready t = Some t' \<longrightarrow>
            (\<exists>dispatched. submitted t' = submitted t + dispatched \<and>
               u_cores t' = u_cores t - (\<Sum>job\<in>#dispatched. threads (heap t' job)))) \<and>
         (\<forall>job t t'. finished job t = Some t' \<longrightarrow>
            u_cores t' = (if needrun (heap t job) then u_cores t + threads (heap t job)
                          else u_cores t))"
proof -
  have inv: "budget_inv c"
    using assms(3) budget_inv_start[OF assms(1,2)] by (rule budget_inv_reachable)
  have m: "maxcores (sched c) = cores_arg"
    using reachable_maxcores[OF assms(3)] by (simp add: start_def init_def)
  from inv have e: "u_cores (sched c) + debt c = maxcores (sched c)" and c0: "0 \<le> u_cores (sched c)"
    by (simp_all add: budget_inv_def)
  note dn = debt_nonneg[OF inv]
  have q: "u_cores (sched c) + in_flight (sched c) = maxcores (sched c)"
    if "pc c = Waiting \<and> callbacks c = {#}"
    using that e by (simp add: debt_def)
  have ld: "\<forall>run old. pc c = Deducting run old \<longrightarrow>
            old = u_cores (sched c) \<and>
            (\<Sum>job\<in>#jobs_of run. threads (heap (sched c) job)) \<le> u_cores (sched c)"
  proof (intro allI impI)
    fix run old assume "pc c = Deducting run old"
    moreover from inv have "pc_inv (sched c) (pc c)" by (simp add: budget_inv_def)
    ultimately show "old = u_cores (sched c) \<and>
            (\<Sum>job\<in>#jobs_of run. threads (heap (sched c) job)) \<le> u_cores (sched c)"
      by (simp add: fits_def)
  qed
  have lf: "\<forall>job old. Finished_loaded job old \<in># callbacks c \<longrightarrow>
            old = u_cores (sched c) \<and> needrun (heap (sched c) job)"
  proof (intro allI impI)
    fix job old assume "Finished_loaded job old \<in># callbacks c"
    moreover from inv have "\<forall>a\<in>#callbacks c. act_inv (sched c) a" by (simp add: budget_inv_def)
    ultimately have "act_inv (sched c) (Finished_loaded job old)" by blast
    then show "old = u_cores (sched c) \<and> needrun (heap (sched c) job)"
      by (simp add: settled_def)
  qed
  have d: "\<forall>ready t t'. schedule_step ready t = Some t' \<longrightarrow>
            (\<exists>dispatched. submitted t' = submitted t + dispatched \<and>
               u_cores t' = u_cores t - (\<Sum>job\<in>#dispatched. threads (heap t' job)))"
    by (intro allI impI) (rule schedule_step_dispatch)
  have f: "\<forall>job t t'. finished job t = Some t' \<longrightarrow>
            u_cores t' = (if needrun (heap t job) then u_cores t + threads (heap t job)
                          else u_cores t)"
    by (intro allI impI) (rule finished_fields(2))
  have b1: "u_cores (sched c) \<le> maxcores (sched c)" using e dn by linarith
  have b2: "in_flight (sched c) \<le> maxcores (sched c)" using e dn c0 by linarith
  have b3: "u_cores (sched c) + in_flight (sched c) \<le> maxcores (sched c)" using e dn by linarith
  show ?thesis
    using q by (intro conjI impI) (rule m c0 b1 b2 b3 e ld lf d f | assumption)+
qed

theorem local_budget_invariant_witness:
  "exclusive_step\<^sup>*\<^sup>* (start (init acb_heap 3 4 False False False))
     (the (execute_exclusive refund (start (init acb_heap 3 4 False False False)))) \<and>
   u_cores (sched (the (execute_exclusive refund (start (init acb_heap 3 4 False False False)))))
     + debt (the (execute_exclusive refund (start (init acb_heap 3 4 False False False)))) = 4"
proof -
  let ?start = "start (init acb_heap 3 4 False False False)"
  let ?c = "the (execute_exclusive refund ?start)"
  have h1: "(0::int) \<le> 4" by simp
  have h2: "\<forall>job. 0 \<le> threads (acb_heap job)" by (simp add: acb_heap_def)
  have "execute_exclusive refund ?start \<noteq> None" by code_simp
  then have "execute_exclusive refund ?start = Some ?c" by simp
  then have r: "exclusive_step\<^sup>*\<^sup>* ?start ?c" by (rule execute_exclusive_reaches)
  note big = local_budget_invariant[OF h1 h2 r]
  have "maxcores (sched ?c) = 4" by (rule big[THEN conjunct1])
  moreover have "u_cores (sched ?c) + debt ?c = maxcores (sched ?c)"
    by (rule big[THEN conjunct2, THEN conjunct2, THEN conjunct2, THEN conjunct2, THEN conjunct2,
                 THEN conjunct1])
  ultimately have "u_cores (sched ?c) + debt ?c = 4" by simp
  with r show ?thesis by (rule conjI)
qed

section \<open>After an error\<close>

lemma fire_u_errors: "fire a c = Some c' \<Longrightarrow> u_errors (sched c) \<Longrightarrow> u_errors (sched c')"
proof (cases a)
  case Visit
  assume "fire a c = Some c'" "u_errors (sched c)"
  with Visit show ?thesis
    by (auto simp: collect_single visit_fields simp del: collect.simps split: pc.splits list.splits)
next
  case (Advance x)
  assume "fire a c = Some c'" "u_errors (sched c)"
  with Advance show ?thesis
    by (cases x) (auto simp: progress_fields split: if_splits option.splits)
qed (auto split: if_splits pc.splits list.splits option.splits)

lemma reachable_u_errors: "step\<^sup>*\<^sup>* c c' \<Longrightarrow> u_errors (sched c) \<Longrightarrow> u_errors (sched c')"
  by (induction rule: rtranclp_induct) (auto simp: step_def fire_u_errors)

lemma fire_signalled:
  assumes f: "fire a c = Some c'" and e: "u_errors (sched c)" and s: "signalled c"
  shows "signalled c'"
proof (cases a)
  case Visit
  with f s show ?thesis
    by (auto simp: signalled_def collect_single visit_fields simp del: collect.simps
        split: pc.splits list.splits)
next
  case (Advance x)
  from f[unfolded Advance] obtain C where C: "callbacks c = add_mset x C"
    and c': "c' = c\<lparr>sched := fst (advance x (sched c)),
             callbacks := (case snd (advance x (sched c)) of None \<Rightarrow> C | Some a' \<Rightarrow> add_mset a' C)\<rparr>"
    by (rule fire_Advance)
  show ?thesis
    using s C unfolding signalled_def c'
    by (cases x) (auto simp: progress_fields split: option.splits)
next
  case (Test ready)
  with f e show ?thesis by (auto simp: signalled_def split: if_splits)
qed (use f s in \<open>auto simp: signalled_def split: if_splits pc.splits list.splits option.splits\<close>)

lemma reachable_signalled:
  "step\<^sup>*\<^sup>* c c' \<Longrightarrow> u_errors (sched c) \<Longrightarrow> signalled c \<Longrightarrow> signalled c'"
proof (induction rule: rtranclp_induct)
  case base
  then show ?case by simp
next
  case (step y z)
  then have "u_errors (sched y)" "signalled y" by (simp_all add: reachable_u_errors)
  with step(2) show ?case by (auto simp: step_def intro: fire_signalled)
qed

lemma fire_at_top:
  assumes f: "fire a c = Some c'" and e: "u_errors (sched c)" and t: "at_top (pc c)"
  shows "at_top (pc c') \<and> submitted (sched c') = submitted (sched c)"
proof (cases a)
  case (Advance x)
  with f show ?thesis
    using t by (auto simp: advance_keeps split: if_splits prod.splits dest!: arg_cong[where f=fst])
qed (use f e t in \<open>auto split: if_splits pc.splits list.splits option.splits\<close>)

lemma reachable_at_top:
  "step\<^sup>*\<^sup>* c c' \<Longrightarrow> u_errors (sched c) \<Longrightarrow> at_top (pc c) \<Longrightarrow>
   at_top (pc c') \<and> submitted (sched c') = submitted (sched c)"
proof (induction rule: rtranclp_induct)
  case base
  then show ?case by simp
next
  case (step y z)
  then have y: "u_errors (sched y)" "at_top (pc y)" "submitted (sched y) = submitted (sched c)"
    by (simp_all add: reachable_u_errors)
  from step(2) obtain a where "fire a y = Some z" by (auto simp: step_def)
  from fire_at_top[OF this y(1,2)] y(3) show ?case by simp
qed

lemma exit_Cleared:
  assumes "pc c = Cleared" and "u_errors (sched c)"
  shows "\<exists>d. execute [Test ready] c = Some d \<and> exits c d"
  using assms by (simp add: exits_def)

lemma exit_Woken:
  assumes "pc c = Woken" and "u_errors (sched c)"
  shows "\<exists>d. execute [Clear, Test ready] c = Some d \<and> exits c d"
  using assms by (simp add: exits_def)

lemma exit_Waiting:
  assumes "pc c = Waiting" and "u_errors (sched c)" and "u_open_jobs (sched c)"
  shows "\<exists>d. execute [Wake, Clear, Test ready] c = Some d \<and> exits c d"
  using assms by (simp add: exits_def)

lemma exit_signal:
  assumes "pc c = Waiting" and "u_errors (sched c)" and "Error_signal \<in># callbacks c"
  shows "\<exists>d. execute [Advance Error_signal, Wake, Clear, Test ready] c = Some d \<and> exits c d"
  using assms by (simp add: exits_def)

lemma exit_jobs:
  assumes "pc c = Waiting" and "u_errors (sched c)" and "Error_jobs \<in># callbacks c"
  shows "\<exists>d. execute [Advance Error_jobs, Advance Error_signal, Wake, Clear, Test ready] c = Some d
            \<and> exits c d"
  using assms by (simp add: exits_def)

lemma error_exit:
  assumes "u_errors (sched c)" and "signalled c"
    and "pc c = Waiting \<or> pc c = Woken \<or> pc c = Cleared"
  shows "\<exists>as d. execute as c = Some d \<and> exits c d"
proof -
  consider "pc c = Cleared" | "pc c = Woken" | "pc c = Waiting" "u_open_jobs (sched c)"
    | "pc c = Waiting" "Error_signal \<in># callbacks c" | "pc c = Waiting" "Error_jobs \<in># callbacks c"
    using assms(2,3) by (auto simp: signalled_def)
  then show ?thesis
  proof cases
    case 1 from exit_Cleared[OF 1 assms(1), of "[]"] show ?thesis by blast
  next
    case 2 from exit_Woken[OF 2 assms(1), of "[]"] show ?thesis by blast
  next
    case 3 from exit_Waiting[OF 3(1) assms(1) 3(2), of "[]"] show ?thesis by blast
  next
    case 4 from exit_signal[OF 4(1) assms(1) 4(2), of "[]"] show ?thesis by blast
  next
    case 5 from exit_jobs[OF 5(1) assms(1) 5(2), of "[]"] show ?thesis by blast
  qed
qed

lemma execute_append:
  "execute (as @ bs) c = (case execute as c of None \<Rightarrow> None | Some d \<Rightarrow> execute bs d)"
  by (induction as arbitrary: c) (auto split: option.splits)

lemma execute_appendE:
  assumes "execute (as @ bs) c = Some c'"
  obtains d where "execute as c = Some d" "execute bs d = Some c'"
  using assms by (auto simp: execute_append split: option.splits)

lemma execute_single: "execute [a] c = fire a c"
  by (simp split: option.splits)

text \<open>
  C5, as stated, fails: a pass tests the flag once, at line 41, and dispatches at lines
  64 to 66. With job A ready the pass finds the flag unset, collects A and selects it;
  the error callback then sets the flag; nothing has been dispatched so far, and the
  same pass goes on to deduct A's threads and to dispatch A with the flag set.
\<close>

theorem error_flag_counterexample:
  "execute late_error (start (init acb_heap 3 4 False False False)) \<noteq> None \<and>
   u_errors (sched (the (execute late_error (start (init acb_heap 3 4 False False False))))) \<and>
   submitted (sched (the (execute late_error (start (init acb_heap 3 4 False False False))))) = {#} \<and>
   execute [Load, Store, Dispatch 0]
     (the (execute late_error (start (init acb_heap 3 4 False False False)))) \<noteq> None \<and>
   submitted (sched (the (execute [Load, Store, Dispatch 0]
     (the (execute late_error (start (init acb_heap 3 4 False False False))))))) = {#0#}"
  by code_simp

text \<open>
  C5, amended. Once the error callback has set the flag, the flag is set in every later
  state, whatever the threads interleave. The control thread does not stay blocked:
  when it waits, the wake signal is set or the error callback is still to set it. When
  it tests the flag, it calls \<open>executor.shutdown\<close>, dispatches nothing and
  \<open>schedule\<close> returns \<open>False\<close>; from the top of a pass the system has a
  continuation in which it does so. Once the control thread is at the top of a pass, or
  has left \<open>schedule\<close>, it stays outside the body of a pass and no job is dispatched in
  any later state. What may still be dispatched after the flag is set is the selection
  of the pass that tested the flag before.
\<close>

theorem error_flag_final:
  assumes "fire (Advance Error_flag) c0 = Some c" and "step\<^sup>*\<^sup>* c c'" and "step\<^sup>*\<^sup>* c' c''"
  shows "u_errors (sched c) \<and> u_errors (sched c') \<and> u_errors (sched c'') \<and>
         (pc c' = Waiting \<longrightarrow>
            u_open_jobs (sched c') \<or> Error_jobs \<in># callbacks c' \<or> Error_signal \<in># callbacks c') \<and>
         (pc c' = Cleared \<longrightarrow>
            (\<forall>ready. \<exists>d. fire (Test ready) c' = Some d \<and> pc d = Done \<and>
                 returned (sched d) = Some False \<and>
                 shutdowns (sched d) = shutdowns (sched c') + 1 \<and>
                 submitted (sched d) = submitted (sched c'))) \<and>
         (pc c' = Waiting \<or> pc c' = Woken \<or> pc c' = Cleared \<longrightarrow>
            (\<exists>as d. execute as c' = Some d \<and> pc d = Done \<and>
                 returned (sched d) = Some False \<and>
                 shutdowns (sched d) = shutdowns (sched c') + 1 \<and>
                 submitted (sched d) = submitted (sched c'))) \<and>
         (at_top (pc c') \<longrightarrow> at_top (pc c'') \<and> submitted (sched c'') = submitted (sched c'))"
proof -
  from assms(1) obtain C where C: "callbacks c0 = add_mset Error_flag C"
    and c: "c = c0\<lparr>sched := fst (advance Error_flag (sched c0)),
             callbacks := (case snd (advance Error_flag (sched c0)) of None \<Rightarrow> C | Some a' \<Rightarrow> add_mset a' C)\<rparr>"
    by (rule fire_Advance)
  have e: "u_errors (sched c)" by (simp add: c)
  have s: "signalled c" by (simp add: c signalled_def)
  have e': "u_errors (sched c')" using assms(2) e by (rule reachable_u_errors)
  have e'': "u_errors (sched c'')" using assms(3) e' by (rule reachable_u_errors)
  have s': "signalled c'" using assms(2) e s by (rule reachable_signalled)
  have w: "pc c' = Waiting \<longrightarrow>
      u_open_jobs (sched c') \<or> Error_jobs \<in># callbacks c' \<or> Error_signal \<in># callbacks c'"
    using s' by (auto simp: signalled_def)
  have t: "pc c' = Cleared \<longrightarrow>
      (\<forall>ready. \<exists>d. fire (Test ready) c' = Some d \<and> pc d = Done \<and>
                 returned (sched d) = Some False \<and>
                 shutdowns (sched d) = shutdowns (sched c') + 1 \<and>
                 submitted (sched d) = submitted (sched c'))"
    using e' by simp
  have x: "pc c' = Waiting \<or> pc c' = Woken \<or> pc c' = Cleared \<longrightarrow>
            (\<exists>as d. execute as c' = Some d \<and> pc d = Done \<and>
                 returned (sched d) = Some False \<and>
                 shutdowns (sched d) = shutdowns (sched c') + 1 \<and>
                 submitted (sched d) = submitted (sched c'))"
    using error_exit[OF e' s'] unfolding exits_def by (intro impI)
  have a: "at_top (pc c') \<longrightarrow> at_top (pc c'') \<and> submitted (sched c'') = submitted (sched c')"
    using reachable_at_top[OF assms(3) e'] by blast
  show ?thesis
    by (intro conjI) (rule e e' e'' w t x a)+
qed

theorem error_flag_final_witness:
  "pc (the (execute (late_error @ error_seen @ [Test [1]])
         (start (init acb_heap 3 4 False False False)))) = Done \<and>
   returned (sched (the (execute (late_error @ error_seen @ [Test [1]])
         (start (init acb_heap 3 4 False False False))))) = Some False \<and>
   submitted (sched (the (execute (late_error @ error_seen @ [Test [1]])
         (start (init acb_heap 3 4 False False False))))) = {#0#}"
proof -
  let ?start = "start (init acb_heap 3 4 False False False)"
  let ?pre = "[Wake, Clear, Test [0], Visit, Select, Call_error]"
  let ?d = "the (execute (late_error @ error_seen @ [Test [1]]) ?start)"
  have le: "late_error = ?pre @ [Advance Error_flag]" by (simp add: late_error_def)
  have "execute (late_error @ error_seen @ [Test [1]]) ?start \<noteq> None" by code_simp
  then have "execute (late_error @ error_seen @ [Test [1]]) ?start = Some ?d" by simp
  then obtain c where c: "execute late_error ?start = Some c"
    and rest: "execute (error_seen @ [Test [1]]) c = Some ?d"
    by (rule execute_appendE)
  from c obtain c0 where "execute ?pre ?start = Some c0" and f: "fire (Advance Error_flag) c0 = Some c"
    unfolding le by (rule execute_appendE) (simp only: execute_single)
  from rest obtain c' where c': "execute error_seen c = Some c'" and t: "fire (Test [1]) c' = Some ?d"
    by (rule execute_appendE) (simp only: execute_single)
  have r: "step\<^sup>*\<^sup>* c c'" using c' by (rule execute_reaches)
  have r': "step\<^sup>*\<^sup>* c' c'" by simp
  have "execute (late_error @ error_seen) ?start = Some c'"
    using c c' by (simp add: execute_append)
  then have eq: "c' = the (execute (late_error @ error_seen) ?start)" by simp
  have p: "pc c' = Cleared" unfolding eq by code_simp
  have sub: "submitted (sched c') = {#0#}" unfolding eq by code_simp
  from error_flag_final[OF f r r'] p
  obtain d' where "fire (Test [1]) c' = Some d'" "pc d' = Done" "returned (sched d') = Some False"
    "submitted (sched d') = submitted (sched c')"
    by blast
  with t sub show ?thesis by simp
qed

section \<open>Passes and callbacks that run alone\<close>

text \<open>
  The interleaved system contains the sequential behaviour: a pass of the loop that no
  callback interrupts is \<open>schedule_step\<close>, and a callback that runs from its entry to
  its return with no other step between is \<open>finished\<close> and \<open>error\<close>.
\<close>

lemma visit_all:
  "pc c = Collecting ready acc \<Longrightarrow> collect ready (sched c) acc = (acc', s') \<Longrightarrow>
   execute (replicate (length ready) Visit) c = Some (c\<lparr>sched := s', pc := Collecting [] acc'\<rparr>)"
proof (induction ready arbitrary: c acc)
  case Nil
  then show ?case by simp
next
  case (Cons job ready)
  let ?acc = "if needrun (heap (sched c) job) then acc @ [job] else acc"
  let ?d = "c\<lparr>sched := visit job (sched c), pc := Collecting ready ?acc\<rparr>"
  have f: "fire Visit c = Some ?d"
    using Cons.prems(1) by (simp add: collect_single del: collect.simps)
  have "collect ready (sched ?d) ?acc = (acc', s')"
    using Cons.prems(2) by (simp add: collect_Cons del: collect.simps)
  then have "execute (replicate (length ready) Visit) ?d = Some (?d\<lparr>sched := s', pc := Collecting [] acc'\<rparr>)"
    by (intro Cons.IH) simp
  then show ?case using f by simp
qed

lemma backtrack_finite:
  "backtrack thr jobs K i j sol = Some S \<Longrightarrow> finite sol \<Longrightarrow> finite S"
proof (induction i arbitrary: j sol)
  case 0
  then show ?case by simp
next
  case (Suc i)
  from Suc.prems(1) show ?case
    by (auto simp del: of_nat_Suc split: bind_splits if_splits
        intro: Suc.IH[OF _ Suc.prems(2)] Suc.IH[of _ "insert _ sol"] simp: Suc.prems(2))
qed

lemma u_selector_finite: "u_selector s jobs = Some sel \<Longrightarrow> finite_selection sel"
  by (auto simp: u_selector_def thread_based_selector_def Let_def
      split: if_splits bind_splits dest: backtrack_finite)

lemma dispatch_all:
  "pc c = Dispatching sel \<Longrightarrow> finite_selection sel \<Longrightarrow> size (jobs_of sel) = k \<Longrightarrow>
   \<exists>as rest. next_jobs rest = {} \<and> execute as c
     = Some (c\<lparr>sched := (sched c)\<lparr>submitted := submitted (sched c) + jobs_of sel\<rparr>,
              pc := Dispatching rest\<rparr>)"
proof (induction k arbitrary: c sel)
  case 0
  then have e: "jobs_of sel = {#}" by simp
  then have "next_jobs sel = {}"
    using 0(2) by (cases sel rule: next_jobs.cases) (auto simp: mset_set_empty_iff)
  moreover have "execute [] c = Some (c\<lparr>sched := (sched c)\<lparr>submitted := submitted (sched c) + jobs_of sel\<rparr>,
      pc := Dispatching sel\<rparr>)"
    using 0(1) e by simp
  ultimately show ?case by blast
next
  case (Suc k)
  then have "jobs_of sel \<noteq> {#}" by auto
  then have "next_jobs sel \<noteq> {}"
    using next_jobs_empty by blast
  then obtain x where x: "x \<in> next_jobs sel" by blast
  let ?d = "c\<lparr>sched := (sched c)\<lparr>submitted := add_mset x (submitted (sched c))\<rparr>,
              pc := Dispatching (without x sel)\<rparr>"
  have f: "fire (Dispatch x) c = Some ?d" using Suc.prems(1) x by simp
  have wo: "jobs_of (without x sel) = jobs_of sel - {#x#}"
    using Suc.prems(2) x by (rule jobs_of_without)
  have mem: "x \<in># jobs_of sel" using Suc.prems(2) x by (rule next_jobs_member)
  have "size (jobs_of (without x sel)) = k"
    using Suc.prems(3) mem unfolding wo by (simp add: size_Diff_singleton)
  from Suc.IH[of ?d "without x sel", OF _ finite_without[OF Suc.prems(2)] this] obtain as rest where r: "next_jobs rest = {}"
    and "execute as ?d = Some (?d\<lparr>sched := (sched ?d)\<lparr>submitted := submitted (sched ?d)
          + jobs_of (without x sel)\<rparr>, pc := Dispatching rest\<rparr>)"
    by auto
  moreover have "add_mset x (submitted (sched c)) + (jobs_of sel - {#x#}) = submitted (sched c) + jobs_of sel"
    using mem by simp
  ultimately have "execute (Dispatch x # as) c
     = Some (c\<lparr>sched := (sched c)\<lparr>submitted := submitted (sched c) + jobs_of sel\<rparr>,
          pc := Dispatching rest\<rparr>)"
    using f by (simp add: wo)
  with r show ?case by blast
qed

lemma pass_serial:
  assumes w: "pc c = Waiting" "u_open_jobs (sched c)"
    and st: "schedule_step ready (sched c) = Some s'"
  shows "\<exists>as p. execute as c = Some (c\<lparr>sched := s', pc := p\<rparr>) \<and> (p = Waiting \<or> p = Done)"
  using st
proof (cases rule: schedule_step_cases)
  case failed
  have "execute [Wake, Clear, Test ready] c = Some (c\<lparr>sched := s', pc := Done\<rparr>)"
    using w failed by simp
  then show ?thesis by blast
next
  case (complete s1)
  let ?c2 = "c\<lparr>sched := (sched c)\<lparr>u_open_jobs := False\<rparr>, pc := Collecting ready []\<rparr>"
  have a: "execute [Wake, Clear, Test ready] c = Some ?c2"
    using w complete(1) by simp
  have b: "execute (replicate (length ready) Visit) ?c2 = Some (?c2\<lparr>sched := s1, pc := Collecting [] []\<rparr>)"
    using visit_all[of ?c2 ready "[]" "[]" s1] complete(2) by simp
  have c: "execute [Select] (?c2\<lparr>sched := s1, pc := Collecting [] []\<rparr>) = Some (c\<lparr>sched := s', pc := Done\<rparr>)"
    by (simp add: complete(3))
  have "execute ([Wake, Clear, Test ready] @ replicate (length ready) Visit @ [Select]) c
          = Some (c\<lparr>sched := s', pc := Done\<rparr>)"
    by (simp only: execute_append a b c option.case)
  then show ?thesis by blast
next
  case (dispatch candidates s1 sel)
  let ?c2 = "c\<lparr>sched := (sched c)\<lparr>u_open_jobs := False\<rparr>, pc := Collecting ready []\<rparr>"
  let ?total = "\<Sum>job\<in>#jobs_of sel. threads (heap s1 job)"
  let ?c5 = "c\<lparr>sched := s1\<lparr>u_cores := u_cores s1 - ?total\<rparr>, pc := Dispatching sel\<rparr>"
  have a: "execute [Wake, Clear, Test ready] c = Some ?c2"
    using w dispatch(1) by simp
  have b: "execute (replicate (length ready) Visit) ?c2 = Some (?c2\<lparr>sched := s1, pc := Collecting [] candidates\<rparr>)"
    using visit_all[of ?c2 ready "[]" candidates s1] dispatch(2) by simp
  have c: "execute [Select, Load, Store] (?c2\<lparr>sched := s1, pc := Collecting [] candidates\<rparr>) = Some ?c5"
    using dispatch(3,4) by simp
  from dispatch_all[of ?c5 sel "size (jobs_of sel)"] u_selector_finite[OF dispatch(4)] obtain as rest where r: "next_jobs rest = {}"
    and d: "execute as ?c5 = Some (c\<lparr>sched := s', pc := Dispatching rest\<rparr>)"
    by (auto simp: dispatch(5))
  have e: "execute [Loop] (c\<lparr>sched := s', pc := Dispatching rest\<rparr>) = Some (c\<lparr>sched := s', pc := Waiting\<rparr>)"
    using r by simp
  have "execute ([Wake, Clear, Test ready] @ replicate (length ready) Visit @ [Select, Load, Store]
           @ as @ [Loop]) c = Some (c\<lparr>sched := s', pc := Waiting\<rparr>)"
    by (simp only: execute_append a b c d e option.case)
  then show ?thesis by blast
qed

lemma finished_serial:
  assumes "job \<in># submitted (sched c) - ended (sched c)" and "finished job (sched c) = Some s'"
  shows "\<exists>as. execute as c = Some (c\<lparr>sched := s'\<rparr>)"
proof (cases "needrun (heap (sched c) job)")
  case True
  have "execute [Call_finished job, Advance (Finished_test job),
          Advance (Finished_loaded job (u_cores (sched c))), Advance (Finished_counting job),
          Advance (Finished_counted job (finished_jobs (sched c))), Advance (Finished_notify job),
          Advance (Finished_progress job), Advance (Finished_signal job)] c = Some (c\<lparr>sched := s'\<rparr>)"
    using assms True by (auto simp: finished_def progress_def Let_def split: if_splits)
  then show ?thesis by blast
next
  case False
  have "execute [Call_finished job, Advance (Finished_test job), Advance (Finished_counting job),
          Advance (Finished_counted job (finished_jobs (sched c))), Advance (Finished_notify job),
          Advance (Finished_progress job), Advance (Finished_signal job)] c = Some (c\<lparr>sched := s'\<rparr>)"
    using assms False by (auto simp: finished_def progress_def Let_def split: if_splits)
  then show ?thesis by blast
qed

lemma error_serial:
  "execute [Call_error, Advance Error_flag, Advance Error_jobs, Advance Error_signal] c
     = Some (c\<lparr>sched := error (sched c)\<rparr>)"
  by (simp add: error_def)

end
